theory Spec2Isabelle
  imports
    Main
    "HOL-Library.Char_ord"
    "HOL-Library.List_Lexorder"
    "HOL-Library.Product_Lexorder"
    "HOL-Library.AList"
    "HOL-Library.Monad_Syntax"
begin

section \<open>Python values used by \<^verbatim>\<open>repo_function_deepdive.py\<close>\<close>

text \<open>
  A Python \<^verbatim>\<open>str\<close> is a \<^typ>\<open>string\<close>; a \<^typ>\<open>char\<close> stands for the code point of the
  same number (U+0000 to U+00FF), and the order of \<^verbatim>\<open>HOL-Library.Char_ord\<close> and
  \<^verbatim>\<open>HOL-Library.List_Lexorder\<close> is Python's comparison of strings by code point.
  A \<^verbatim>\<open>Dict[str, V]\<close> is an association list in insertion order, which is the order in
  which Python iterates a dict: \<^const>\<open>AList.update\<close> overwrites a present key in place and
  appends an absent one. A \<^verbatim>\<open>Set[str]\<close> is a \<^typ>\<open>string set\<close>.

  Python iterates a set in an order fixed by the hashes of its members, and the hash of a
  string changes from one interpreter run to the next. Every \<^verbatim>\<open>for x in some_set\<close> of the
  source therefore takes its order from a parameter \<open>e\<close>, of which only
  \<open>valid_enum\<close> is known: each member of a finite set comes exactly once.
\<close>

datatype error = KeyError

type_synonym name = string
type_synonym 'v dict = "(name \<times> 'v) list"
type_synonym set_order = "name set \<Rightarrow> name list"

definition valid_enum :: "set_order \<Rightarrow> bool" where
  "valid_enum e \<longleftrightarrow> (\<forall>S. finite S \<longrightarrow> set (e S) = S \<and> distinct (e S))"

text \<open>A \<^verbatim>\<open>for\<close> loop whose body may raise: the first error ends the loop.\<close>

fun foldE :: "('a \<Rightarrow> 's \<Rightarrow> error + 's) \<Rightarrow> 'a list \<Rightarrow> 's \<Rightarrow> error + 's" where
  "foldE f [] s = Inr s"
| "foldE f (x # xs) s = (case f x s of Inl err \<Rightarrow> Inl err | Inr s' \<Rightarrow> foldE f xs s')"

text \<open>\<^verbatim>\<open>{n: set() for n in names}\<close>\<close>

definition empty_sets :: "name list \<Rightarrow> name set dict" where
  "empty_sets names = fold (\<lambda>n d. AList.update n {} d) names []"

text \<open>\<^verbatim>\<open>d[k].add(v)\<close>: indexing a dict at an absent key raises \<^verbatim>\<open>KeyError\<close>.\<close>

definition set_add :: "name \<Rightarrow> name \<Rightarrow> name set dict \<Rightarrow> error + name set dict" where
  "set_add k v d =
     (case map_of d k of
        None \<Rightarrow> Inl KeyError
      | Some S \<Rightarrow> Inr (AList.update k (insert v S) d))"

section \<open>Grouping: \<^verbatim>\<open>build_groups\<close>\<close>

text \<open>
  The body of the double loop that fills \<^verbatim>\<open>graph\<close>:
  \<^verbatim>\<open>if b in graph and b != a: graph[a].add(b); graph[b].add(a)\<close>
\<close>

definition link :: "name \<Rightarrow> name \<Rightarrow> name set dict \<Rightarrow> error + name set dict" where
  "link a b graph =
     (if map_of graph b \<noteq> None \<and> b \<noteq> a
      then (case set_add a b graph of
              Inl err \<Rightarrow> Inl err
            | Inr graph' \<Rightarrow> set_add b a graph')
      else Inr graph)"

definition build_graph :: "set_order \<Rightarrow> name list \<Rightarrow> name set dict \<Rightarrow> error + name set dict" where
  "build_graph e names edges =
     foldE (\<lambda>(a, neigh). foldE (link a) (e neigh)) edges (empty_sets names)"

text \<open>
  The inner \<^verbatim>\<open>while stack:\<close> loop. The Python list \<^verbatim>\<open>stack\<close> is kept with its last
  element first, so that \<^verbatim>\<open>stack.pop()\<close> takes the head and
  \<^verbatim>\<open>stack.extend(xs)\<close> puts \<open>rev xs\<close> in front. The result is the pair of \<^verbatim>\<open>seen\<close>
  and \<^verbatim>\<open>comp\<close> (here \<open>acc\<close>) when the stack is empty.
\<close>

function component ::
  "name set dict \<Rightarrow> name list \<Rightarrow> name set \<Rightarrow> name set \<Rightarrow> error + (name set \<times> name set)" where
  "component graph [] seen acc = Inr (seen, acc)"
| "component graph (cur # stack) seen acc =
     (if cur \<in> seen then component graph stack seen acc
      else case map_of graph cur of
             None \<Rightarrow> Inl KeyError
           | Some nb \<Rightarrow>
               component graph
                 (rev (sorted_list_of_set (nb - insert cur seen)) @ stack)
                 (insert cur seen) (insert cur acc))"
  by pat_completeness auto
termination
proof (relation "measures [\<lambda>(graph, stack, seen, acc). card (fst ` set graph - seen),
                           \<lambda>(graph, stack, seen, acc). length stack]")
  show "wf (measures [\<lambda>(graph, stack, seen, acc). card (fst ` set graph - seen),
                      \<lambda>(graph, stack, seen, acc). length stack])"
    by simp
next
  fix graph :: "name set dict" and cur :: name and stack :: "name list" and seen acc :: "name set"
  assume "cur \<in> seen"
  then show "((graph, stack, seen, acc), (graph, cur # stack, seen, acc))
    \<in> measures [\<lambda>(graph, stack, seen, acc). card (fst ` set graph - seen),
                 \<lambda>(graph, stack, seen, acc). length stack]"
    by simp
next
  fix graph :: "name set dict" and cur :: name and stack :: "name list" and seen acc nb :: "name set"
  assume new: "cur \<notin> seen" and key: "map_of graph cur = Some nb"
  from key have "cur \<in> fst ` set graph"
    by (metis domI dom_map_of_conv_image_fst)
  with new have "card (fst ` set graph - insert cur seen) < card (fst ` set graph - seen)"
    by (intro psubset_card_mono) auto
  then show "((graph, rev (sorted_list_of_set (nb - insert cur seen)) @ stack,
               insert cur seen, insert cur acc),
              (graph, cur # stack, seen, acc))
    \<in> measures [\<lambda>(graph, stack, seen, acc). card (fst ` set graph - seen),
                 \<lambda>(graph, stack, seen, acc). length stack]"
    by simp
qed

text \<open>One round of \<^verbatim>\<open>for n in names:\<close>, on the state \<^verbatim>\<open>(seen, groups)\<close>.\<close>

definition visit ::
  "name set dict \<Rightarrow> name \<Rightarrow> name set \<times> name set list \<Rightarrow> error + (name set \<times> name set list)" where
  "visit graph n = (\<lambda>(seen, groups).
     if n \<in> seen then Inr (seen, groups)
     else case component graph [n] seen {} of
            Inl err \<Rightarrow> Inl err
          | Inr (seen', grp) \<Rightarrow> Inr (seen', groups @ [grp]))"

text \<open>The sort key \<^verbatim>\<open>lambda g: (-len(g), sorted(g)[0] if g else "")\<close>.\<close>

definition group_key :: "name set \<Rightarrow> int \<times> name" where
  "group_key g = (- int (card g), if g \<noteq> {} then hd (sorted_list_of_set g) else [])"

text \<open>
  \<^verbatim>\<open>groups.sort(key=...)\<close> is a stable sort, as \<^const>\<open>sort_key\<close> is; tuples compare
  lexicographically.
\<close>

definition build_groups :: "set_order \<Rightarrow> name list \<Rightarrow> name set dict \<Rightarrow> error + name set list" where
  "build_groups e names edges =
     (case build_graph e names edges of
        Inl err \<Rightarrow> Inl err
      | Inr graph \<Rightarrow>
          (case foldE (visit graph) names ({}, []) of
             Inl err \<Rightarrow> Inl err
           | Inr (seen, groups) \<Rightarrow> Inr (sort_key group_key groups)))"

section \<open>Resolving calls: the statements shared by both branches of \<^verbatim>\<open>analyze_file\<close>\<close>

text \<open>
  \<^verbatim>\<open>for n, f in funcs.items(): for c in f.calls: if c in funcs: edges[n].add(c)\<close>,
  with \<open>calls_of\<close> for the attribute \<^verbatim>\<open>.calls\<close> of the record type at hand.
\<close>

definition add_call :: "'f dict \<Rightarrow> name \<Rightarrow> name \<Rightarrow> name set dict \<Rightarrow> error + name set dict" where
  "add_call funcs n c edges = (if map_of funcs c \<noteq> None then set_add n c edges else Inr edges)"

definition call_edges ::
  "set_order \<Rightarrow> ('f \<Rightarrow> name set) \<Rightarrow> 'f dict \<Rightarrow> name list \<Rightarrow> error + name set dict" where
  "call_edges e calls_of funcs names =
     foldE (\<lambda>(n, f). foldE (add_call funcs n) (e (calls_of f))) funcs (empty_sets names)"

text \<open>\<^verbatim>\<open>for a, nbrs in edges.items(): for b in nbrs: callers[b].add(a)\<close>\<close>

definition callers_map :: "set_order \<Rightarrow> name list \<Rightarrow> name set dict \<Rightarrow> error + name set dict" where
  "callers_map e names edges =
     foldE (\<lambda>(a, nbrs). foldE (\<lambda>b. set_add b a) (e nbrs)) edges (empty_sets names)"

text \<open>
  What \<^verbatim>\<open>analyze_file\<close> computes before it writes reports: \<^verbatim>\<open>names\<close>, \<^verbatim>\<open>edges\<close>,
  \<^verbatim>\<open>groups\<close> and \<^verbatim>\<open>callers\<close>. With no function it returns at
  \<^verbatim>\<open>if not names: return []\<close> and there is nothing of the four.
\<close>

record analysis =
  file_names :: "name list"
  file_edges :: "name set dict"
  file_groups :: "name set list"
  file_callers :: "name set dict"

definition analyze :: "set_order \<Rightarrow> ('f \<Rightarrow> name set) \<Rightarrow> 'f dict \<Rightarrow> error + analysis" where
  "analyze e calls_of funcs =
     (let ns = sort (map fst funcs) in
      if ns = [] then Inr \<lparr>file_names = [], file_edges = [], file_groups = [], file_callers = []\<rparr>
      else case call_edges e calls_of funcs ns of
        Inl err \<Rightarrow> Inl err
      | Inr es \<Rightarrow>
          (case build_groups e ns es of
             Inl err \<Rightarrow> Inl err
           | Inr gs \<Rightarrow>
               (case callers_map e ns es of
                  Inl err \<Rightarrow> Inl err
                | Inr cs \<Rightarrow> Inr \<lparr>file_names = ns, file_edges = es, file_groups = gs, file_callers = cs\<rparr>)))"

section \<open>The span locator: \<^verbatim>\<open>_brace_span\<close>\<close>

text \<open>
  The \<^verbatim>\<open>while i < len(code)\<close> loop on the loop variables \<^verbatim>\<open>depth\<close>, \<^verbatim>\<open>in_str\<close>,
  \<^verbatim>\<open>esc\<close> and \<^verbatim>\<open>i\<close>; the last argument is \<^verbatim>\<open>code[i:]\<close>. Falling out of the loop
  returns \<open>-1\<close>.
\<close>

fun brace_scan :: "int \<Rightarrow> char option \<Rightarrow> bool \<Rightarrow> nat \<Rightarrow> string \<Rightarrow> int" where
  "brace_scan depth in_str esc i [] = - 1"
| "brace_scan depth in_str esc i (ch # rest) =
     (case in_str of
        Some q \<Rightarrow>
          (if esc then brace_scan depth in_str False (i + 1) rest
           else if ch = CHR 0x5C then brace_scan depth in_str True (i + 1) rest
           else if ch = q then brace_scan depth None esc (i + 1) rest
           else brace_scan depth in_str esc (i + 1) rest)
      | None \<Rightarrow>
          (if ch = CHR 0x27 \<or> ch = CHR 0x22 \<or> ch = CHR 0x60
             then brace_scan depth (Some ch) esc (i + 1) rest
           else if ch = CHR ''{'' then brace_scan (depth + 1) in_str esc (i + 1) rest
           else if ch = CHR ''}''
             then (if depth - 1 = 0 then int i
                   else brace_scan (depth - 1) in_str esc (i + 1) rest)
           else brace_scan depth in_str esc (i + 1) rest))"

definition brace_span :: "string \<Rightarrow> nat \<Rightarrow> int" where
  "brace_span code start_brace_idx = brace_scan 0 None False start_brace_idx (drop start_brace_idx code)"

text \<open>\<^verbatim>\<open>code.count("\n", 0, idx) + 1\<close>\<close>

definition line_no :: "string \<Rightarrow> nat \<Rightarrow> int" where
  "line_no code idx = int (count_list (take idx code) (CHR 0x0A)) + 1"

section \<open>The regular expressions of the heuristic extractor\<close>

text \<open>
  The character classes of Python's \<^verbatim>\<open>re\<close> on \<^verbatim>\<open>str\<close> patterns, for the code points a
  \<^typ>\<open>char\<close> can hold: \<open>ident_char\<close> is \<^verbatim>\<open>[A-Za-z0-9_]\<close>, \<open>ident_start\<close> is
  \<^verbatim>\<open>[A-Za-z_]\<close>, \<open>re_word\<close> is \<^verbatim>\<open>\w\<close> and \<open>re_space\<close> is \<^verbatim>\<open>\s\<close> (both Unicode-aware).
\<close>

definition ident_start :: "char \<Rightarrow> bool" where
  "ident_start c \<longleftrightarrow>
     (CHR ''A'' \<le> c \<and> c \<le> CHR ''Z'') \<or> (CHR ''a'' \<le> c \<and> c \<le> CHR ''z'') \<or> c = CHR ''_''"

definition ident_char :: "char \<Rightarrow> bool" where
  "ident_char c \<longleftrightarrow> ident_start c \<or> (CHR ''0'' \<le> c \<and> c \<le> CHR ''9'')"

definition re_word :: "char \<Rightarrow> bool" where
  "re_word c \<longleftrightarrow>
     ident_char c \<or> c = CHR 0xAA \<or> c = CHR 0xB2 \<or> c = CHR 0xB3 \<or> c = CHR 0xB5 \<or>
     c = CHR 0xB9 \<or> c = CHR 0xBA \<or> (CHR 0xBC \<le> c \<and> c \<le> CHR 0xBE) \<or>
     (CHR 0xC0 \<le> c \<and> c \<le> CHR 0xD6) \<or> (CHR 0xD8 \<le> c \<and> c \<le> CHR 0xF6) \<or> CHR 0xF8 \<le> c"

definition re_space :: "char \<Rightarrow> bool" where
  "re_space c \<longleftrightarrow>
     (CHR 0x09 \<le> c \<and> c \<le> CHR 0x0D) \<or> (CHR 0x1C \<le> c \<and> c \<le> CHR 0x20) \<or>
     c = CHR 0x85 \<or> c = CHR 0xA0"

text \<open>
  A pattern is matched at one position: \<open>prev\<close> is the character before it (for
  \<^verbatim>\<open>\b\<close>) and the string is the text from there on. The result is group 1 and the
  length of the match. In each of the five patterns every repetition is followed by
  an item that no character of the repeated class can start, so the longest run is the
  only one the backtracking matcher can succeed with.
\<close>

type_synonym regex = "char option \<Rightarrow> string \<Rightarrow> (name \<times> nat) option"

definition word_boundary :: "char option \<Rightarrow> string \<Rightarrow> bool" where
  "word_boundary prev s \<longleftrightarrow>
     (case prev of None \<Rightarrow> False | Some c \<Rightarrow> re_word c) \<noteq>
     (case s of [] \<Rightarrow> False | c # _ \<Rightarrow> re_word c)"

fun literal :: "string \<Rightarrow> string \<Rightarrow> string option" where
  "literal [] s = Some s"
| "literal (p # ps) [] = None"
| "literal (p # ps) (c # cs) = (if p = c then literal ps cs else None)"

definition spaces :: "string \<Rightarrow> string" where
  "spaces s = dropWhile re_space s"

definition spaces1 :: "string \<Rightarrow> string option" where
  "spaces1 s = (if takeWhile re_space s = [] then None else Some (dropWhile re_space s))"

definition ident :: "string \<Rightarrow> (name \<times> string) option" where
  "ident s =
     (if takeWhile ident_char s = [] then None
      else Some (takeWhile ident_char s, dropWhile ident_char s))"

definition var_kw :: "string \<Rightarrow> string option" where
  "var_kw s =
     (case literal ''const'' s of
        Some r \<Rightarrow> Some r
      | None \<Rightarrow> (case literal ''let'' s of Some r \<Rightarrow> Some r | None \<Rightarrow> literal ''var'' s))"

definition params :: "string \<Rightarrow> string option" where
  "params s = literal '')'' (dropWhile (\<lambda>c. c \<noteq> CHR '')'') s)"

text \<open>\<^verbatim>\<open>\bfunction\s+([A-Za-z0-9_]+)\s*\(\<close>\<close>

definition rx_decl :: regex where
  "rx_decl prev s =
     (if word_boundary prev s then
        do {
          s1 \<leftarrow> literal ''function'' s;
          s2 \<leftarrow> spaces1 s1;
          (nm, s3) \<leftarrow> ident s2;
          s4 \<leftarrow> literal ''('' (spaces s3);
          Some (nm, length s - length s4)
        }
      else None)"

text \<open>\<^verbatim>\<open>\b(?:const|let|var)\s+([A-Za-z0-9_]+)\s*=\s*\([^\)]*\)\s*=>\s*{\<close>\<close>

definition rx_arrow :: regex where
  "rx_arrow prev s =
     (if word_boundary prev s then
        do {
          s1 \<leftarrow> var_kw s;
          s2 \<leftarrow> spaces1 s1;
          (nm, s3) \<leftarrow> ident s2;
          s4 \<leftarrow> literal ''='' (spaces s3);
          s5 \<leftarrow> literal ''('' (spaces s4);
          s6 \<leftarrow> params s5;
          s7 \<leftarrow> literal ''=>'' (spaces s6);
          s8 \<leftarrow> literal ''{'' (spaces s7);
          Some (nm, length s - length s8)
        }
      else None)"

text \<open>\<^verbatim>\<open>\b(?:const|let|var)\s+([A-Za-z0-9_]+)\s*=\s*function\s*\(\<close>\<close>

definition rx_expr :: regex where
  "rx_expr prev s =
     (if word_boundary prev s then
        do {
          s1 \<leftarrow> var_kw s;
          s2 \<leftarrow> spaces1 s1;
          (nm, s3) \<leftarrow> ident s2;
          s4 \<leftarrow> literal ''='' (spaces s3);
          s5 \<leftarrow> literal ''function'' (spaces s4);
          s6 \<leftarrow> literal ''('' (spaces s5);
          Some (nm, length s - length s6)
        }
      else None)"

text \<open>\<^verbatim>\<open>\b([A-Za-z0-9_]+)\s*\([^)]*\)\s*{\<close>, with the comment \<^verbatim>\<open># filtered later\<close>\<close>

definition rx_method_hint :: regex where
  "rx_method_hint prev s =
     (if word_boundary prev s then
        do {
          (nm, s1) \<leftarrow> ident s;
          s2 \<leftarrow> literal ''('' (spaces s1);
          s3 \<leftarrow> params s2;
          s4 \<leftarrow> literal ''{'' (spaces s3);
          Some (nm, length s - length s4)
        }
      else None)"

definition JS_FUNC_PATTERNS :: "(regex \<times> string) list" where
  "JS_FUNC_PATTERNS =
     [(rx_decl, ''decl''), (rx_arrow, ''arrow''), (rx_expr, ''expr''),
      (rx_method_hint, ''method_hint'')]"

text \<open>\<^verbatim>\<open>JS_CALL_RE\<close>: \<^verbatim>\<open>\b([A-Za-z_][A-Za-z0-9_]*)\s*\(\<close>\<close>

definition JS_CALL_RE :: regex where
  "JS_CALL_RE prev s =
     (if word_boundary prev s then
        (case s of
           [] \<Rightarrow> None
         | c # cs \<Rightarrow>
             if ident_start c then
               do {
                 s1 \<leftarrow> literal ''('' (spaces (dropWhile ident_char cs));
                 Some (c # takeWhile ident_char cs, length s - length s1)
               }
             else None)
      else None)"

text \<open>
  \<^verbatim>\<open>rx.finditer(code)\<close>: the matches from left to right, each search starting where the
  last match ended. A match is \<^verbatim>\<open>(m.start(), m.end(), m.group(1))\<close>; \<open>skip\<close> counts the
  characters of the last match that are still to be passed. No pattern here matches the
  empty string.
\<close>

type_synonym match = "nat \<times> nat \<times> name"

fun finditer_from :: "regex \<Rightarrow> char option \<Rightarrow> nat \<Rightarrow> nat \<Rightarrow> string \<Rightarrow> match list" where
  "finditer_from rx prev pos skip [] = []"
| "finditer_from rx prev pos skip (c # cs) =
     (if 0 < skip then finditer_from rx (Some c) (pos + 1) (skip - 1) cs
      else case rx prev (c # cs) of
             None \<Rightarrow> finditer_from rx (Some c) (pos + 1) 0 cs
           | Some (nm, len) \<Rightarrow>
               (pos, pos + len, nm) # finditer_from rx (Some c) (pos + 1) (len - 1) cs)"

definition finditer :: "regex \<Rightarrow> string \<Rightarrow> match list" where
  "finditer rx code = finditer_from rx None 0 0 code"

text \<open>\<^verbatim>\<open>code.find(ch, start)\<close>, which is \<open>-1\<close> when there is none; \<^verbatim>\<open>code[a:b]\<close>.\<close>

fun find_from :: "char \<Rightarrow> nat \<Rightarrow> string \<Rightarrow> int" where
  "find_from ch i [] = - 1"
| "find_from ch i (c # cs) = (if c = ch then int i else find_from ch (i + 1) cs)"

definition str_find :: "string \<Rightarrow> char \<Rightarrow> nat \<Rightarrow> int" where
  "str_find code ch start = find_from ch start (drop start code)"

definition slice :: "string \<Rightarrow> nat \<Rightarrow> nat \<Rightarrow> string" where
  "slice code a b = take (b - a) (drop a code)"

section \<open>The heuristic extractor: \<^verbatim>\<open>parse_js_functions\<close>\<close>

record js_function =
  js_name :: name
  start_idx :: int
  end_idx :: int
  start_line :: int
  end_line :: int
  js_src :: string
  js_calls :: "name set"

text \<open>The set literal of line 187.\<close>

definition not_callees :: "name set" where
  "not_callees = {''if'', ''for'', ''while'', ''switch'', ''return'', ''function''}"

text \<open>\<^verbatim>\<open>for cm in JS_CALL_RE.finditer(body): ...\<close>\<close>

definition harvest_calls :: "string \<Rightarrow> name set" where
  "harvest_calls body =
     fold (\<lambda>(cm_start, cm_end, callee) calls.
             if callee \<notin> not_callees then insert callee calls else calls)
       (finditer JS_CALL_RE body) {}"

text \<open>
  The body of the inner loop up to \<^verbatim>\<open>jf.calls = calls\<close>: \<open>None\<close> is one of the three
  \<^verbatim>\<open>continue\<close>s, \<open>Some jf\<close> the record that reaches the collision test.
\<close>

definition js_candidate :: "string \<Rightarrow> match \<Rightarrow> js_function option" where
  "js_candidate code = (\<lambda>(m_start, m_end, nm).
     if nm = [] then None
     else
       let brace_idx = str_find code (CHR ''{'') m_end in
       if brace_idx = - 1 then None
       else
         let end_idx = brace_span code (nat brace_idx) in
         if end_idx = - 1 then None
         else Some
           \<lparr>js_name = nm,
            start_idx = int m_start,
            end_idx = end_idx + 1,
            start_line = line_no code m_start,
            end_line = line_no code (nat (end_idx + 1)),
            js_src = slice code m_start (nat (end_idx + 1)),
            js_calls = harvest_calls (slice code (nat brace_idx) (nat (end_idx + 1)))\<rparr>)"

text \<open>
  Lines 190 to 192:
  \<^verbatim>\<open>if name not in seen or (seen[name].end_idx - seen[name].start_idx) < (jf.end_idx - jf.start_idx): seen[name] = jf\<close>
\<close>

definition keep :: "js_function \<Rightarrow> js_function dict \<Rightarrow> js_function dict" where
  "keep jf seen =
     (case map_of seen (js_name jf) of
        None \<Rightarrow> AList.update (js_name jf) jf seen
      | Some old \<Rightarrow>
          if end_idx old - start_idx old < end_idx jf - start_idx jf
          then AList.update (js_name jf) jf seen
          else seen)"

definition js_step :: "string \<Rightarrow> match \<Rightarrow> js_function dict \<Rightarrow> js_function dict" where
  "js_step code m seen = (case js_candidate code m of None \<Rightarrow> seen | Some jf \<Rightarrow> keep jf seen)"

definition parse_js_functions :: "string \<Rightarrow> js_function dict" where
  "parse_js_functions code =
     fold (\<lambda>(rx, kind) seen. fold (js_step code) (finditer rx code) seen) JS_FUNC_PATTERNS []"

text \<open>The JavaScript branch of \<^verbatim>\<open>analyze_file\<close>.\<close>

definition analyze_js :: "set_order \<Rightarrow> string \<Rightarrow> error + analysis" where
  "analyze_js e code = analyze e js_calls (parse_js_functions code)"

section \<open>The grammar-aware extractor: \<^verbatim>\<open>parse_python_functions\<close>\<close>

text \<open>
  The parser \<^verbatim>\<open>ast.parse\<close> belongs to Python's library, not to this repository: it is
  the parameter \<open>ast_parse\<close>, which returns the tree or the exception it raises. Of a tree
  the code reads whether a node is an \<^verbatim>\<open>ast.FunctionDef\<close> or \<^verbatim>\<open>ast.AsyncFunctionDef\<close>
  (with \<^verbatim>\<open>name\<close>, \<^verbatim>\<open>lineno\<close>, \<^verbatim>\<open>end_lineno\<close> and the source segment that lines 74 to 78
  take from the library), whether it is an \<^verbatim>\<open>ast.Call\<close> and what its \<^verbatim>\<open>func\<close> is, and
  the child nodes.
\<close>

datatype call_func = Name name | Attribute name | OtherFunc

datatype py_ast =
    FunctionDef name int int string "py_ast list"
  | AsyncFunctionDef name int int string "py_ast list"
  | Call call_func "py_ast list"
  | Node "py_ast list"

record py_function =
  py_name :: name
  py_start :: int
  py_end :: int
  py_src :: string
  py_calls :: "name set"

fun iter_child_nodes :: "py_ast \<Rightarrow> py_ast list" where
  "iter_child_nodes (FunctionDef nm l1 l2 seg cs) = cs"
| "iter_child_nodes (AsyncFunctionDef nm l1 l2 seg cs) = cs"
| "iter_child_nodes (Call f cs) = cs"
| "iter_child_nodes (Node cs) = cs"

text \<open>\<^verbatim>\<open>ast.walk\<close>: breadth first, from a queue.\<close>

function ast_walk :: "py_ast list \<Rightarrow> py_ast list" where
  "ast_walk [] = []"
| "ast_walk (node # todo) = node # ast_walk (todo @ iter_child_nodes node)"
  by pat_completeness auto
termination
  by (relation "measure (size_list size)") (auto, case_tac node, auto)

text \<open>
  \<^verbatim>\<open>CallVisitor\<close>: \<^verbatim>\<open>visit_Call\<close> records the name of a call and goes on into the
  node; every other node is passed by \<^verbatim>\<open>generic_visit\<close>.
\<close>

fun visit_calls :: "py_ast \<Rightarrow> name set" where
  "visit_calls (Call fn cs) =
     (case fn of Name i \<Rightarrow> {i} | Attribute attr \<Rightarrow> {attr} | OtherFunc \<Rightarrow> {})
       \<union> (\<Union>c \<in> set cs. visit_calls c)"
| "visit_calls (FunctionDef nm l1 l2 seg cs) = (\<Union>c \<in> set cs. visit_calls c)"
| "visit_calls (AsyncFunctionDef nm l1 l2 seg cs) = (\<Union>c \<in> set cs. visit_calls c)"
| "visit_calls (Node cs) = (\<Union>c \<in> set cs. visit_calls c)"

text \<open>The first loop over \<^verbatim>\<open>ast.walk(tree)\<close>: \<^verbatim>\<open>funcs[name] = PyFunction(...)\<close>.\<close>

fun collect_def :: "py_ast \<Rightarrow> py_function dict \<Rightarrow> py_function dict" where
  "collect_def (FunctionDef nm l1 l2 seg cs) funcs =
     AList.update nm \<lparr>py_name = nm, py_start = l1, py_end = l2, py_src = seg, py_calls = {}\<rparr> funcs"
| "collect_def (AsyncFunctionDef nm l1 l2 seg cs) funcs =
     AList.update nm \<lparr>py_name = nm, py_start = l1, py_end = l2, py_src = seg, py_calls = {}\<rparr> funcs"
| "collect_def node funcs = funcs"

text \<open>The second loop: \<^verbatim>\<open>if cur in funcs: funcs[cur].calls |= v.calls\<close>.\<close>

definition add_calls :: "name \<Rightarrow> name set \<Rightarrow> py_function dict \<Rightarrow> py_function dict" where
  "add_calls cur cs funcs =
     (case map_of funcs cur of
        None \<Rightarrow> funcs
      | Some f \<Rightarrow> AList.update cur (f\<lparr>py_calls := py_calls f \<union> cs\<rparr>) funcs)"

fun collect_calls :: "py_ast \<Rightarrow> py_function dict \<Rightarrow> py_function dict" where
  "collect_calls (FunctionDef nm l1 l2 seg cs) funcs =
     add_calls nm (visit_calls (FunctionDef nm l1 l2 seg cs)) funcs"
| "collect_calls (AsyncFunctionDef nm l1 l2 seg cs) funcs =
     add_calls nm (visit_calls (AsyncFunctionDef nm l1 l2 seg cs)) funcs"
| "collect_calls node funcs = funcs"

text \<open>\<^verbatim>\<open>try: tree = ast.parse(code) except Exception: return funcs\<close>, then the two loops.\<close>

definition parse_python_functions :: "(string \<Rightarrow> 'x + py_ast) \<Rightarrow> string \<Rightarrow> py_function dict" where
  "parse_python_functions ast_parse code =
     (case ast_parse code of
        Inl exn \<Rightarrow> []
      | Inr tree \<Rightarrow>
          fold collect_calls (ast_walk [tree]) (fold collect_def (ast_walk [tree]) []))"

text \<open>The Python branch of \<^verbatim>\<open>analyze_file\<close>.\<close>

definition analyze_python :: "set_order \<Rightarrow> (string \<Rightarrow> 'x + py_ast) \<Rightarrow> string \<Rightarrow> error + analysis" where
  "analyze_python e ast_parse code = analyze e py_calls (parse_python_functions ast_parse code)"

section \<open>Notions for the statements\<close>

text \<open>Reading a dict of sets at a key, with the empty set for an absent key.\<close>

definition members :: "name set dict \<Rightarrow> name \<Rightarrow> name set" where
  "members d k = (case map_of d k of None \<Rightarrow> {} | Some S \<Rightarrow> S)"

text \<open>
  The pairs \<open>(a, b)\<close> in the order in which the double loop
  \<^verbatim>\<open>for a, S in d.items(): for b in S:\<close> meets them.
\<close>

definition iteration :: "set_order \<Rightarrow> name set dict \<Rightarrow> (name \<times> name) list" where
  "iteration e d = concat (map (\<lambda>(a, S). map (Pair a) (e S)) d)"

text \<open>
  A list of sets is a partition of \<open>A\<close>: the sets cover \<open>A\<close>, none is empty, and two sets
  at different positions share no member.
\<close>

definition partition_of :: "name set list \<Rightarrow> name set \<Rightarrow> bool" where
  "partition_of gs A \<longleftrightarrow>
     \<Union> (set gs) = A \<and> (\<forall>g \<in> set gs. g \<noteq> {}) \<and>
     (\<forall>i < length gs. \<forall>j < length gs. i \<noteq> j \<longrightarrow> gs ! i \<inter> gs ! j = {})"

text \<open>
  The records that reach the collision test of \<^verbatim>\<open>parse_js_functions\<close>, in the order
  in which the two loops build them, and the length of source text a record spans.
\<close>

definition js_candidates :: "string \<Rightarrow> js_function list" where
  "js_candidates code =
     concat (map (\<lambda>(rx, kind). List.map_filter (js_candidate code) (finditer rx code))
       JS_FUNC_PATTERNS)"

definition span_len :: "js_function \<Rightarrow> int" where
  "span_len jf = end_idx jf - start_idx jf"

text \<open>
  The order of the report: a larger group comes first, and of two groups of one size
  the one whose smallest name is smaller.
\<close>

definition group_before :: "name set \<Rightarrow> name set \<Rightarrow> bool" where
  "group_before g h \<longleftrightarrow> card h < card g \<or> (card g = card h \<and> Min g < Min h)"

section \<open>The contract of the span locator\<close>

text \<open>
  The contract in the words of the specification, to be compared with \<open>brace_span\<close>.
  \<open>code_level\<close> reads the text from the start index on and keeps the characters that
  are outside every quoted string (single, double or backtick quotes; inside a string a
  backslash takes the next character with it, so an escaped quote does not end the
  string); string content and the quotes themselves become \<open>None\<close>. A closing brace
  outside strings matches when, up to and including it, as many braces outside strings
  have been closed as have been opened; \<open>matching_brace\<close> is the index of the first one,
  if there is one.
\<close>

fun code_level :: "char option \<Rightarrow> bool \<Rightarrow> string \<Rightarrow> char option list" where
  "code_level quote escaped [] = []"
| "code_level quote escaped (ch # rest) =
     (case quote of
        Some q \<Rightarrow>
          None # (if escaped then code_level quote False rest
                  else if ch = CHR 0x5C then code_level quote True rest
                  else if ch = q then code_level None False rest
                  else code_level quote False rest)
      | None \<Rightarrow>
          if ch = CHR 0x27 \<or> ch = CHR 0x22 \<or> ch = CHR 0x60
          then None # code_level (Some ch) False rest
          else Some ch # code_level None False rest)"

definition closes_at :: "char option list \<Rightarrow> nat \<Rightarrow> bool" where
  "closes_at vis j \<longleftrightarrow>
     vis ! j = Some (CHR ''}'') \<and>
     count_list (take (Suc j) vis) (Some (CHR ''{'')) = count_list (take (Suc j) vis) (Some (CHR ''}''))"

text \<open>The same with \<open>depth\<close> braces open at the beginning.\<close>

definition closes_from :: "int \<Rightarrow> char option list \<Rightarrow> nat \<Rightarrow> bool" where
  "closes_from depth vis j \<longleftrightarrow>
     vis ! j = Some (CHR ''}'') \<and>
     depth + int (count_list (take (Suc j) vis) (Some (CHR ''{'')))
       = int (count_list (take (Suc j) vis) (Some (CHR ''}'')))"

definition matching_brace :: "string \<Rightarrow> nat \<Rightarrow> nat option" where
  "matching_brace code start =
     map_option (\<lambda>j. start + j)
       (List.find (closes_at (code_level None False (drop start code))) [0..<length code - start])"

text \<open>The result of \<^verbatim>\<open>analyze_file\<close> for a file with no function.\<close>

definition no_functions :: analysis where
  "no_functions = \<lparr>file_names = [], file_edges = [], file_groups = [], file_callers = []\<rparr>"

section \<open>Unparsable Python text\<close>

text \<open>
  Claim C7. When \<^verbatim>\<open>ast.parse\<close> raises an exception on the text, \<^verbatim>\<open>parse_python_functions\<close>
  returns the empty mapping instead of raising, and the analysis of the file has no
  function and no group.
\<close>

theorem unparsable_python_text:
  assumes "ast_parse code = Inl exn"
  shows "parse_python_functions ast_parse code = [] \<and>
         analyze_python e ast_parse code = Inr no_functions \<and>
         file_groups no_functions = []"
  using assms
  by (simp add: parse_python_functions_def analyze_python_def analyze_def no_functions_def)

theorem unparsable_python_text_witness:
  "(\<lambda>c. Inl ''SyntaxError'' :: string + py_ast) ''def f(:'' = Inl ''SyntaxError'' \<and>
   parse_python_functions (\<lambda>c. Inl ''SyntaxError'' :: string + py_ast) ''def f(:'' = [] \<and>
   analyze_python sorted_list_of_set (\<lambda>c. Inl ''SyntaxError'' :: string + py_ast) ''def f(:''
     = Inr no_functions \<and>
   file_groups no_functions = []"
  using unparsable_python_text [of "\<lambda>c. Inl ''SyntaxError'' :: string + py_ast" "''def f(:''"
      "''SyntaxError''" sorted_list_of_set]
  by simp

section \<open>Loops that add to a dict of sets\<close>

lemma foldE_append:
  "foldE f (xs @ ys) s = (case foldE f xs s of Inl err \<Rightarrow> Inl err | Inr s' \<Rightarrow> foldE f ys s')"
  by (induction xs arbitrary: s) (auto split: sum.splits)

lemma foldE_Pair: "foldE (\<lambda>(a, b). g a b) (map (Pair a) xs) s = foldE (g a) xs s"
  by (induction xs arbitrary: s) (auto split: sum.splits)

lemma foldE_nested:
  "foldE (\<lambda>(a, S). foldE (g a) (e S)) d s = foldE (\<lambda>(a, b). g a b) (iteration e d) s"
proof (induction d arbitrary: s)
  case Nil
  show ?case by (simp add: iteration_def)
next
  case (Cons p d)
  obtain a S where p: "p = (a, S)" by (cases p)
  have it: "iteration e ((a, S) # d) = map (Pair a) (e S) @ iteration e d"
    by (simp add: iteration_def)
  show ?case
    by (simp add: it foldE_append foldE_Pair p Cons.IH split: sum.splits)
qed

lemma foldE_filter:
  "foldE (\<lambda>(a, b) d. if P a b then set_add a b d else Inr d) ps d
     = foldE (\<lambda>(k, v). set_add k v) (filter (\<lambda>(a, b). P a b) ps) d"
  by (induction ps arbitrary: d) (auto split: sum.splits)

lemma foldE_swap:
  "foldE (\<lambda>(a, b). set_add b a) ps d = foldE (\<lambda>(k, v). set_add k v) (map prod.swap ps) d"
  by (induction ps arbitrary: d) (auto split: sum.splits)

lemma set_add_Inr:
  "set_add k v d = Inr d' \<longleftrightarrow> (\<exists>S. map_of d k = Some S \<and> d' = AList.update k (insert v S) d)"
  by (auto simp: set_add_def split: option.splits)

lemma map_of_Some_key: "map_of d k = Some S \<Longrightarrow> k \<in> set (map fst d)"
  by (metis domI dom_map_of_conv_image_fst set_map)

lemma adds_result:
  "foldE (\<lambda>(k, v). set_add k v) ops d = Inr d' \<Longrightarrow>
     map fst d' = map fst d \<and>
     (\<forall>k. map_of d' k = map_option (\<lambda>S. S \<union> {v. (k, v) \<in> set ops}) (map_of d k)) \<and>
     (\<forall>(k, v) \<in> set ops. map_of d k \<noteq> None)"
proof (induction ops arbitrary: d)
  case Nil
  then show ?case by (simp add: option.map_ident)
next
  case (Cons p ops)
  obtain k v where p: "p = (k, v)" by (cases p)
  from Cons.prems obtain d1 where d1: "set_add k v d = Inr d1"
    and rest: "foldE (\<lambda>(k, v). set_add k v) ops d1 = Inr d'"
    by (auto simp: p split: sum.splits)
  from d1 obtain S where S: "map_of d k = Some S" and d1_eq: "d1 = AList.update k (insert v S) d"
    by (auto simp: set_add_Inr)
  have keys1: "map fst d1 = map fst d"
    using map_of_Some_key [OF S] by (simp add: d1_eq update_keys)
  have m1: "map_of d1 = (map_of d)(k \<mapsto> insert v S)"
    by (simp add: d1_eq update_conv')
  note IH = Cons.IH [OF rest]
  have "map fst d' = map fst d" using IH keys1 by simp
  moreover have "map_of d' j = map_option (\<lambda>S. S \<union> {v. (j, v) \<in> set (p # ops)}) (map_of d j)" for j
    using IH S by (auto simp: m1 p)
  moreover have "\<forall>(k, v) \<in> set (p # ops). map_of d k \<noteq> None"
    using IH S by (auto simp: m1 p split: if_splits)
  ultimately show ?case by blast
qed

lemma adds_total:
  "\<forall>(k, v) \<in> set ops. map_of d k \<noteq> None \<Longrightarrow> \<exists>d'. foldE (\<lambda>(k, v). set_add k v) ops d = Inr d'"
proof (induction ops arbitrary: d)
  case Nil
  then show ?case by simp
next
  case (Cons p ops)
  obtain k v where p: "p = (k, v)" by (cases p)
  from Cons.prems obtain S where S: "map_of d k = Some S" by (auto simp: p)
  let ?d1 = "AList.update k (insert v S) d"
  have "\<forall>(k, v) \<in> set ops. map_of ?d1 k \<noteq> None"
    using Cons.prems by (auto simp: update_conv')
  from Cons.IH [OF this] show ?case
    by (simp add: p set_add_def S)
qed

lemma set_iteration: "set (iteration e d) = {(a, b). \<exists>S. (a, S) \<in> set d \<and> b \<in> set (e S)}"
  by (auto simp: iteration_def)

lemma fold_empty_map_of:
  "map_of (fold (\<lambda>n d. AList.update n {} d) ns d0) k
     = (if k \<in> set ns then Some {} else map_of d0 k)"
  by (induction ns arbitrary: d0) (auto simp: update_conv')

lemma map_of_empty_sets: "map_of (empty_sets ns) k = (if k \<in> set ns then Some {} else None)"
  by (simp add: empty_sets_def fold_empty_map_of)

lemma fold_empty_distinct:
  "distinct (map fst d0) \<Longrightarrow> distinct (map fst (fold (\<lambda>n d. AList.update n {} d) ns d0))"
  by (induction ns arbitrary: d0) (auto simp: distinct_update)

lemma distinct_empty_sets: "distinct (map fst (empty_sets ns))"
  by (simp add: empty_sets_def fold_empty_distinct)

lemma set_keys_empty_sets: "set (map fst (empty_sets ns)) = set ns"
proof -
  have "k \<in> set (map fst (empty_sets ns)) \<longleftrightarrow> k \<in> set ns" for k
    using map_of_empty_sets [of ns k]
    by (metis map_of_eq_None_iff option.distinct(1) set_map)
  then show ?thesis by blast
qed

lemma dict_eqI:
  "distinct (map fst xs) \<Longrightarrow> map fst xs = map fst ys \<Longrightarrow> map_of xs = map_of ys \<Longrightarrow> xs = ys"
proof (induction xs arbitrary: ys)
  case Nil
  then show ?case by simp
next
  case (Cons x xs)
  from Cons.prems(2) obtain y ys' where ys: "ys = y # ys'" by (cases ys) auto
  obtain k v where x: "x = (k, v)" by (cases x)
  obtain k' v' where y: "y = (k', v')" by (cases y)
  from Cons.prems(2) have kk: "k' = k" and keys: "map fst xs = map fst ys'"
    by (auto simp: ys x y)
  from Cons.prems(3) have "map_of (x # xs) k = map_of ys k" by (rule fun_cong)
  then have vv: "v' = v" by (simp add: ys x y kk)
  have notin: "k \<notin> set (map fst xs)" using Cons.prems(1) by (simp add: x)
  have "map_of xs j = map_of ys' j" for j
  proof (cases "j = k")
    case True
    then show ?thesis using notin keys
      by (metis map_of_eq_None_iff set_map)
  next
    case False
    from Cons.prems(3) have "map_of (x # xs) j = map_of ys j" by (rule fun_cong)
    with False show ?thesis by (simp add: ys x y kk)
  qed
  then have "map_of xs = map_of ys'" by blast
  with Cons.IH [of ys'] Cons.prems(1) keys have "xs = ys'" by simp
  then show ?case by (simp add: ys x y kk vv)
qed

lemma foldE_link:
  "set (map fst g) = K \<Longrightarrow>
   foldE (\<lambda>(a, b). link a b) ps g
     = foldE (\<lambda>(k, v). set_add k v)
         (concat (map (\<lambda>(a, b). if b \<in> K \<and> b \<noteq> a then [(a, b), (b, a)] else []) ps)) g"
proof (induction ps arbitrary: g)
  case Nil
  then show ?case by simp
next
  case (Cons p ps)
  obtain a b where p: "p = (a, b)" by (cases p)
  have mem: "map_of g b \<noteq> None \<longleftrightarrow> b \<in> K"
    using Cons.prems by (metis map_of_eq_None_iff set_map)
  have keep: "set (map fst g') = K" if "set_add k v g0 = Inr g'" "set (map fst g0) = K" for k v g0 g'
  proof -
    from that(1) obtain S where S: "map_of g0 k = Some S" and g': "g' = AList.update k (insert v S) g0"
      by (auto simp: set_add_Inr)
    from map_of_Some_key [OF S] show ?thesis
      using that(2) by (simp add: g' update_keys)
  qed
  show ?case
  proof (cases "b \<in> K \<and> b \<noteq> a")
    case False
    then show ?thesis using Cons.IH [OF Cons.prems] mem by (auto simp: p link_def)
  next
    case True
    show ?thesis
    proof (cases "set_add a b g")
      case (Inl err)
      then show ?thesis using True mem by (simp add: p link_def)
    next
      case (Inr g1)
      note g1 = keep [OF Inr Cons.prems]
      show ?thesis
      proof (cases "set_add b a g1")
        case (Inl err)
        then show ?thesis using True mem Inr by (simp add: p link_def)
      next
        case g2: (Inr g2)
        from Cons.IH [OF keep [OF g2 g1]] show ?thesis
          using True mem Inr g2 by (simp add: p link_def)
      qed
    qed
  qed
qed

section \<open>The graph of \<^verbatim>\<open>build_groups\<close>\<close>

lemma build_graph_result:
  assumes "build_graph e ns es = Inr g"
  shows "map_of g k =
           (if k \<in> set ns
            then Some {v. v \<noteq> k \<and> (((k, v) \<in> set (iteration e es) \<and> v \<in> set ns) \<or>
                                   (v, k) \<in> set (iteration e es))}
            else None)"
    and "map_of g k = Some S \<Longrightarrow> S \<subseteq> set ns"
    and "set (map fst g) = set ns"
    and "map fst g = map fst (empty_sets ns)"
proof -
  let ?P = "iteration e es"
  let ?ops = "concat (map (\<lambda>(a, b). if b \<in> set ns \<and> b \<noteq> a then [(a, b), (b, a)] else []) ?P)"
  have ops: "(k, v) \<in> set ?ops \<longleftrightarrow>
      (k, v) \<in> set ?P \<and> v \<in> set ns \<and> v \<noteq> k \<or> (v, k) \<in> set ?P \<and> k \<in> set ns \<and> k \<noteq> v" for k v
    by (auto split: if_splits)
  from assms have run: "foldE (\<lambda>(k, v). set_add k v) ?ops (empty_sets ns) = Inr g"
    by (simp add: build_graph_def foldE_nested foldE_link [OF set_keys_empty_sets])
  note res = adds_result [OF run]
  have keys: "map_of (empty_sets ns) k \<noteq> None \<longleftrightarrow> k \<in> set ns" for k
    by (simp add: map_of_empty_sets)
  have inK: "k \<in> set ns" if "(k, v) \<in> set ?ops" for k v
    using res that keys by blast
  show 1: "map_of g k =
           (if k \<in> set ns
            then Some {v. v \<noteq> k \<and> (((k, v) \<in> set ?P \<and> v \<in> set ns) \<or> (v, k) \<in> set ?P)}
            else None)"
  proof (cases "k \<in> set ns")
    case False
    then show ?thesis using res by (simp add: map_of_empty_sets)
  next
    case True
    have "{v. (k, v) \<in> set ?ops} = {v. v \<noteq> k \<and> (((k, v) \<in> set ?P \<and> v \<in> set ns) \<or> (v, k) \<in> set ?P)}"
      using True by (auto simp only: ops mem_Collect_eq)
    then show ?thesis using res True by (simp add: map_of_empty_sets)
  qed
  show "S \<subseteq> set ns" if "map_of g k = Some S"
  proof
    fix v assume "v \<in> S"
    with that 1 have k: "k \<in> set ns" and v: "v \<noteq> k"
      and c: "((k, v) \<in> set ?P \<and> v \<in> set ns) \<or> (v, k) \<in> set ?P"
      by (auto split: if_splits)
    from c show "v \<in> set ns"
    proof
      assume "(k, v) \<in> set ?P \<and> v \<in> set ns" then show ?thesis by simp
    next
      assume "(v, k) \<in> set ?P"
      with k v have "(v, k) \<in> set ?ops" by (auto simp only: ops)
      then show ?thesis by (rule inK)
    qed
  qed
  show "set (map fst g) = set ns"
    using res set_keys_empty_sets by simp
  show "map fst g = map fst (empty_sets ns)"
    using res by simp
qed

lemma build_graph_total:
  assumes "\<forall>(a, b) \<in> set (iteration e es). b \<in> set ns \<and> b \<noteq> a \<longrightarrow> a \<in> set ns"
  shows "\<exists>g. build_graph e ns es = Inr g"
proof -
  let ?P = "iteration e es"
  let ?ops = "concat (map (\<lambda>(a, b). if b \<in> set ns \<and> b \<noteq> a then [(a, b), (b, a)] else []) ?P)"
  have "\<forall>(k, v) \<in> set ?ops. map_of (empty_sets ns) k \<noteq> None"
    using assms by (auto simp: map_of_empty_sets split: if_splits)
  from adds_total [OF this] show ?thesis
    by (simp add: build_graph_def foldE_nested foldE_link [OF set_keys_empty_sets])
qed

section \<open>The traversal of \<^verbatim>\<open>build_groups\<close>\<close>

lemma component_result:
  "component g stack seen acc = Inr (seen', acc') \<Longrightarrow>
     seen \<subseteq> seen' \<and> acc' = acc \<union> (seen' - seen) \<and> seen' - seen \<subseteq> set (map fst g) \<and>
     set stack \<subseteq> seen'"
proof (induction g stack seen acc rule: component.induct)
  case (1 graph seen acc)
  then show ?case by auto
next
  case (2 graph cur stack seen acc)
  show ?case
  proof (cases "cur \<in> seen")
    case True
    with 2 show ?thesis by auto
  next
    case False
    with "2.prems" obtain nb where nb: "map_of graph cur = Some nb"
      and run: "component graph (rev (sorted_list_of_set (nb - insert cur seen)) @ stack)
                  (insert cur seen) (insert cur acc) = Inr (seen', acc')"
      by (auto split: option.splits)
    note IH = "2.IH"(2) [OF False nb run]
    have "cur \<in> set (map fst graph)" using nb by (rule map_of_Some_key)
    with IH False show ?thesis by auto
  qed
qed

lemma component_avoids:
  "component g stack seen acc = Inr (seen', acc') \<Longrightarrow> x \<notin> seen \<Longrightarrow> x \<notin> set stack \<Longrightarrow>
     (\<forall>k S. map_of g k = Some S \<longrightarrow> finite S \<and> x \<notin> S) \<Longrightarrow> x \<notin> seen'"
proof (induction g stack seen acc rule: component.induct)
  case (1 graph seen acc)
  then show ?case by auto
next
  case (2 graph cur stack seen acc)
  show ?case
  proof (cases "cur \<in> seen")
    case True
    with 2 show ?thesis by auto
  next
    case False
    with "2.prems" obtain nb where nb: "map_of graph cur = Some nb"
      and run: "component graph (rev (sorted_list_of_set (nb - insert cur seen)) @ stack)
                  (insert cur seen) (insert cur acc) = Inr (seen', acc')"
      by (auto split: option.splits)
    from "2.prems"(4) nb have fin: "finite nb" and x: "x \<notin> nb" by auto
    have "x \<notin> insert cur seen" using "2.prems" by auto
    moreover have "x \<notin> set (rev (sorted_list_of_set (nb - insert cur seen)) @ stack)"
      using "2.prems" fin x by auto
    ultimately show ?thesis
      using "2.IH"(2) [OF False nb run] "2.prems"(4) by blast
  qed
qed

lemma component_total:
  "(\<forall>k S. map_of g k = Some S \<longrightarrow> S \<subseteq> set (map fst g)) \<Longrightarrow> set stack \<subseteq> set (map fst g) \<Longrightarrow>
     \<exists>r. component g stack seen acc = Inr r"
proof (induction g stack seen acc rule: component.induct)
  case (1 graph seen acc)
  then show ?case by simp
next
  case (2 graph cur stack seen acc)
  show ?case
  proof (cases "cur \<in> seen")
    case True
    with 2 show ?thesis by auto
  next
    case False
    from "2.prems"(2) have "cur \<in> set (map fst graph)" by simp
    then obtain nb where nb: "map_of graph cur = Some nb"
      by (metis map_of_eq_None_iff not_None_eq set_map)
    with "2.prems"(1) have sub: "nb \<subseteq> set (map fst graph)" by blast
    then have "finite nb" by (rule finite_subset) simp
    then have "set (rev (sorted_list_of_set (nb - insert cur seen)) @ stack) \<subseteq> set (map fst graph)"
      using sub "2.prems"(2) by auto
    from "2.IH"(2) [OF False nb "2.prems"(1) this] show ?thesis
      using False nb by simp
  qed
qed

lemma visit_result:
  assumes "visit g n (seen, gs) = Inr (seen', gs')"
    and "seen = \<Union> (set gs)" and "\<forall>x \<in> set gs. x \<noteq> {}" and "distinct gs"
    and "\<forall>x \<in> set gs. \<forall>y \<in> set gs. x \<noteq> y \<longrightarrow> x \<inter> y = {}"
  shows "seen' = \<Union> (set gs') \<and> (\<forall>x \<in> set gs'. x \<noteq> {}) \<and> distinct gs' \<and>
         (\<forall>x \<in> set gs'. \<forall>y \<in> set gs'. x \<noteq> y \<longrightarrow> x \<inter> y = {}) \<and>
         n \<in> seen' \<and> seen \<subseteq> seen' \<and> seen' \<subseteq> seen \<union> set (map fst g)"
proof (cases "n \<in> seen")
  case True
  with assms show ?thesis by (auto simp: visit_def)
next
  case False
  with assms(1) obtain grp where run: "component g [n] seen {} = Inr (seen', grp)"
    and gs': "gs' = gs @ [grp]"
    by (auto simp: visit_def split: sum.splits)
  from component_result [OF run] have mono: "seen \<subseteq> seen'" and grp: "grp = seen' - seen"
    and keys: "seen' - seen \<subseteq> set (map fst g)" and n: "n \<in> seen'"
    by auto
  from n False grp have ne: "grp \<noteq> {}" by auto
  from grp assms(2) have disj: "\<forall>x \<in> set gs. x \<inter> grp = {}" by auto
  with ne assms(3) have new: "grp \<notin> set gs" by auto
  have "seen' = \<Union> (set gs')" using mono grp assms(2) by (auto simp: gs')
  moreover have "\<forall>x \<in> set gs'. x \<noteq> {}" using ne assms(3) by (simp add: gs')
  moreover have "distinct gs'" using new assms(4) by (simp add: gs')
  moreover have "\<forall>x \<in> set gs'. \<forall>y \<in> set gs'. x \<noteq> y \<longrightarrow> x \<inter> y = {}"
    using disj assms(5) by (auto simp: gs')
  moreover have "seen' \<subseteq> seen \<union> set (map fst g)" using keys by auto
  ultimately show ?thesis using n mono by blast
qed

lemma names_loop_result:
  "foldE (visit g) ns (seen, gs) = Inr (seen', gs') \<Longrightarrow>
   seen = \<Union> (set gs) \<Longrightarrow> \<forall>x \<in> set gs. x \<noteq> {} \<Longrightarrow> distinct gs \<Longrightarrow>
   \<forall>x \<in> set gs. \<forall>y \<in> set gs. x \<noteq> y \<longrightarrow> x \<inter> y = {} \<Longrightarrow>
     seen' = \<Union> (set gs') \<and> (\<forall>x \<in> set gs'. x \<noteq> {}) \<and> distinct gs' \<and>
     (\<forall>x \<in> set gs'. \<forall>y \<in> set gs'. x \<noteq> y \<longrightarrow> x \<inter> y = {}) \<and>
     set ns \<subseteq> seen' \<and> seen \<subseteq> seen' \<and> seen' \<subseteq> seen \<union> set (map fst g)"
proof (induction ns arbitrary: seen gs)
  case Nil
  then show ?case by auto
next
  case (Cons n ns)
  from Cons.prems(1) obtain seen1 gs1 where step: "visit g n (seen, gs) = Inr (seen1, gs1)"
    and rest: "foldE (visit g) ns (seen1, gs1) = Inr (seen', gs')"
    by (auto split: sum.splits)
  note v = visit_result [OF step Cons.prems(2-5)]
  from v have a: "seen1 = \<Union> (set gs1)" and b: "\<forall>x \<in> set gs1. x \<noteq> {}" and c: "distinct gs1"
    and d: "\<forall>x \<in> set gs1. \<forall>y \<in> set gs1. x \<noteq> y \<longrightarrow> x \<inter> y = {}"
    by blast+
  note IH = Cons.IH [OF rest a b c d]
  from v have "n \<in> seen1" "seen \<subseteq> seen1" "seen1 \<subseteq> seen \<union> set (map fst g)" by blast+
  with IH show ?case by auto
qed

lemma names_loop_total:
  "(\<forall>k S. map_of g k = Some S \<longrightarrow> S \<subseteq> set (map fst g)) \<Longrightarrow> set ns \<subseteq> set (map fst g) \<Longrightarrow>
     \<exists>r. foldE (visit g) ns st = Inr r"
proof (induction ns arbitrary: st)
  case Nil
  then show ?case by simp
next
  case (Cons n ns)
  obtain seen gs where st: "st = (seen, gs)" by (cases st)
  from Cons.prems have "set [n] \<subseteq> set (map fst g)" by simp
  from component_total [OF Cons.prems(1) this]
  obtain r where "component g [n] seen {} = Inr r" by blast
  then have "\<exists>st1. visit g n st = Inr st1"
    by (cases r; cases "n \<in> seen") (simp_all add: visit_def st del: component.simps)
  then obtain st1 where "visit g n st = Inr st1" ..
  moreover have "set ns \<subseteq> set (map fst g)" using Cons.prems(2) by simp
  from Cons.IH [OF Cons.prems(1) this, of st1]
  obtain r' where "foldE (visit g) ns st1 = Inr r'" ..
  ultimately show ?case by simp
qed

lemma partition_ofI:
  assumes "\<Union> (set gs) = A" and "\<forall>x \<in> set gs. x \<noteq> {}" and "distinct gs"
    and "\<forall>x \<in> set gs. \<forall>y \<in> set gs. x \<noteq> y \<longrightarrow> x \<inter> y = {}"
  shows "partition_of gs A"
  unfolding partition_of_def using assms by (auto simp: nth_eq_iff_index_eq)

lemma build_groups_result:
  assumes "build_groups e ns es = Inr gs"
  obtains g seen gs0 where "build_graph e ns es = Inr g"
    and "foldE (visit g) ns ({}, []) = Inr (seen, gs0)"
    and "gs = sort_key group_key gs0"
  using assms by (auto simp: build_groups_def split: sum.splits)

lemma build_groups_facts:
  assumes "build_groups e ns es = Inr gs"
  shows "\<Union> (set gs) = set ns" and "\<forall>x \<in> set gs. x \<noteq> {}" and "distinct gs"
    and "\<forall>x \<in> set gs. \<forall>y \<in> set gs. x \<noteq> y \<longrightarrow> x \<inter> y = {}"
proof -
  from assms obtain g seen gs0 where g: "build_graph e ns es = Inr g"
    and loop: "foldE (visit g) ns ({}, []) = Inr (seen, gs0)"
    and gs: "gs = sort_key group_key gs0"
    by (rule build_groups_result)
  have "{} = \<Union> (set ([] :: name set list))" by simp
  from names_loop_result [OF loop this] build_graph_result(3) [OF g]
  have "seen = \<Union> (set gs0)" and ne: "\<forall>x \<in> set gs0. x \<noteq> {}" and dist: "distinct gs0"
    and disj: "\<forall>x \<in> set gs0. \<forall>y \<in> set gs0. x \<noteq> y \<longrightarrow> x \<inter> y = {}"
    and "set ns \<subseteq> seen" and "seen \<subseteq> set ns"
    by auto
  then show "\<Union> (set gs) = set ns" by (auto simp: gs)
  show "\<forall>x \<in> set gs. x \<noteq> {}" using ne by (simp add: gs)
  show "distinct gs" using dist by (simp add: gs)
  show "\<forall>x \<in> set gs. \<forall>y \<in> set gs. x \<noteq> y \<longrightarrow> x \<inter> y = {}" using disj by (simp add: gs)
qed

lemma build_groups_total:
  assumes "\<forall>(a, b) \<in> set (iteration e es). b \<in> set ns \<and> b \<noteq> a \<longrightarrow> a \<in> set ns"
  shows "\<exists>gs. build_groups e ns es = Inr gs"
proof -
  from build_graph_total [OF assms] obtain g where g: "build_graph e ns es = Inr g" by blast
  have closed: "\<forall>k S. map_of g k = Some S \<longrightarrow> S \<subseteq> set (map fst g)"
    using build_graph_result(2,3) [OF g] by blast
  have "set ns \<subseteq> set (map fst g)" using build_graph_result(3) [OF g] by simp
  from names_loop_total [OF closed this] obtain r where "foldE (visit g) ns ({}, []) = Inr r"
    by blast
  then show ?thesis by (cases r) (simp add: build_groups_def g)
qed

section \<open>The edges and the callers of \<^verbatim>\<open>analyze_file\<close>\<close>

lemma foldE_map: "foldE f (map h xs) s = foldE (\<lambda>x. f (h x)) xs s"
  by (induction xs arbitrary: s) (auto split: sum.splits)

lemma set_iteration_valid:
  assumes "valid_enum e" and "\<forall>(a, S) \<in> set d. finite S"
  shows "set (iteration e d) = {(a, b). \<exists>S. (a, S) \<in> set d \<and> b \<in> S}"
  using assms unfolding set_iteration valid_enum_def by fastforce

lemma call_edges_result:
  assumes "fst ` set funcs \<subseteq> set ns"
  obtains es where "call_edges e calls_of funcs ns = Inr es"
    and "map fst es = map fst (empty_sets ns)"
    and "\<And>k. map_of es k =
           (if k \<in> set ns
            then Some {c. c \<in> fst ` set funcs \<and> (\<exists>f. (k, f) \<in> set funcs \<and> c \<in> set (e (calls_of f)))}
            else None)"
proof -
  let ?cs = "map (\<lambda>(n, f). (n, calls_of f)) funcs"
  let ?ops = "filter (\<lambda>(n, c). map_of funcs c \<noteq> None) (iteration e ?cs)"
  have key: "map_of funcs c \<noteq> None \<longleftrightarrow> c \<in> fst ` set funcs" for c
    by (simp add: map_of_eq_None_iff)
  have ops: "(k, c) \<in> set ?ops \<longleftrightarrow>
      c \<in> fst ` set funcs \<and> (\<exists>f. (k, f) \<in> set funcs \<and> c \<in> set (e (calls_of f)))" for k c
    unfolding set_filter set_iteration using key [of c] by (auto simp del: not_None_eq)
  have "call_edges e calls_of funcs ns
      = foldE (\<lambda>(n, S). foldE (add_call funcs n) (e S)) ?cs (empty_sets ns)"
    by (simp add: call_edges_def foldE_map case_prod_unfold)
  also have "\<dots> = foldE (\<lambda>(n, c). add_call funcs n c) (iteration e ?cs) (empty_sets ns)"
    by (rule foldE_nested)
  also have "(\<lambda>(n, c). add_call funcs n c)
      = (\<lambda>(n, c) d. if map_of funcs c \<noteq> None then set_add n c d else Inr d)"
    by (auto simp: add_call_def fun_eq_iff)
  also have "foldE \<dots> (iteration e ?cs) (empty_sets ns)
      = foldE (\<lambda>(k, v). set_add k v) ?ops (empty_sets ns)"
    by (rule foldE_filter)
  finally have run: "call_edges e calls_of funcs ns
      = foldE (\<lambda>(k, v). set_add k v) ?ops (empty_sets ns)" .
  have "\<forall>(k, v) \<in> set ?ops. map_of (empty_sets ns) k \<noteq> None"
    using assms by (auto simp: map_of_empty_sets set_iteration)
  from adds_total [OF this] obtain es
    where es: "foldE (\<lambda>(k, v). set_add k v) ?ops (empty_sets ns) = Inr es" by blast
  note res = adds_result [OF es]
  have "map_of es k =
           (if k \<in> set ns
            then Some {c. c \<in> fst ` set funcs \<and> (\<exists>f. (k, f) \<in> set funcs \<and> c \<in> set (e (calls_of f)))}
            else None)" for k
  proof -
    have "{v. (k, v) \<in> set ?ops}
        = {c. c \<in> fst ` set funcs \<and> (\<exists>f. (k, f) \<in> set funcs \<and> c \<in> set (e (calls_of f)))}"
      using ops by blast
    moreover from res
    have "map_of es k = map_option (\<lambda>S. S \<union> {v. (k, v) \<in> set ?ops}) (map_of (empty_sets ns) k)"
      by blast
    ultimately show ?thesis by (simp add: map_of_empty_sets)
  qed
  moreover from res have "map fst es = map fst (empty_sets ns)" by blast
  ultimately show thesis using that [of es] run es by simp
qed

lemma callers_map_result:
  assumes "\<forall>(a, b) \<in> set (iteration e es). b \<in> set ns"
  obtains cs where "callers_map e ns es = Inr cs"
    and "map fst cs = map fst (empty_sets ns)"
    and "\<And>k. map_of cs k =
           (if k \<in> set ns then Some {a. (a, k) \<in> set (iteration e es)} else None)"
proof -
  let ?ops = "map prod.swap (iteration e es)"
  have run: "callers_map e ns es = foldE (\<lambda>(k, v). set_add k v) ?ops (empty_sets ns)"
    unfolding callers_map_def
    using foldE_nested [of "\<lambda>a b. set_add b a" e es "empty_sets ns"]
    by (simp add: foldE_swap)
  have "\<forall>(k, v) \<in> set ?ops. map_of (empty_sets ns) k \<noteq> None"
    using assms by (auto simp: map_of_empty_sets)
  from adds_total [OF this] obtain cs
    where cs: "foldE (\<lambda>(k, v). set_add k v) ?ops (empty_sets ns) = Inr cs" by blast
  note res = adds_result [OF cs]
  have "map_of cs k =
      (if k \<in> set ns then Some {a. (a, k) \<in> set (iteration e es)} else None)" for k
  proof -
    have "{v. (k, v) \<in> set ?ops} = {a. (a, k) \<in> set (iteration e es)}"
      by auto
    moreover from res
    have "map_of cs k = map_option (\<lambda>S. S \<union> {v. (k, v) \<in> set ?ops}) (map_of (empty_sets ns) k)"
      by blast
    ultimately show ?thesis by (simp add: map_of_empty_sets)
  qed
  moreover from res have "map fst cs = map fst (empty_sets ns)" by blast
  ultimately show thesis using that [of cs] run cs by simp
qed

lemma build_groups_nothing: "build_groups e [] [] = Inr []"
  by (simp add: build_groups_def build_graph_def empty_sets_def)

lemma analyze_result:
  assumes ve: "valid_enum e" and fin: "\<forall>(n, f) \<in> set funcs. finite (calls_of f)"
  obtains r where "analyze e calls_of funcs = Inr r"
    and "file_names r = sort (map fst funcs)"
    and "map fst (file_edges r) = map fst (empty_sets (file_names r))"
    and "\<And>k. map_of (file_edges r) k =
           (if k \<in> fst ` set funcs
            then Some {c. c \<in> fst ` set funcs \<and> (\<exists>f. (k, f) \<in> set funcs \<and> c \<in> calls_of f)}
            else None)"
    and "set (iteration e (file_edges r)) = {(a, b). b \<in> members (file_edges r) a}"
    and "build_groups e (file_names r) (file_edges r) = Inr (file_groups r)"
    and "map fst (file_callers r) = map fst (empty_sets (file_names r))"
    and "\<And>k. map_of (file_callers r) k =
           (if k \<in> fst ` set funcs then Some {a. k \<in> members (file_edges r) a} else None)"
proof (cases "funcs = []")
  case True
  show thesis
    by (rule that [of no_functions])
       (simp_all add: True analyze_def no_functions_def build_groups_nothing empty_sets_def
          iteration_def members_def)
next
  case False
  let ?ns = "sort (map fst funcs)"
  let ?K = "fst ` set funcs"
  have ns: "set ?ns = ?K" by simp
  have "?K \<subseteq> set ?ns" by simp
  then obtain es where es: "call_edges e calls_of funcs ?ns = Inr es"
    and es_keys: "map fst es = map fst (empty_sets ?ns)"
    and es_map0: "\<And>k. map_of es k =
           (if k \<in> set ?ns
            then Some {c. c \<in> ?K \<and> (\<exists>f. (k, f) \<in> set funcs \<and> c \<in> set (e (calls_of f)))}
            else None)"
    by (rule call_edges_result [where e = e and calls_of = calls_of]) blast
  have enum: "set (e (calls_of f)) = calls_of f" if "(k, f) \<in> set funcs" for k f
    using ve fin that by (auto simp: valid_enum_def)
  have es_map: "map_of es k =
      (if k \<in> ?K then Some {c. c \<in> ?K \<and> (\<exists>f. (k, f) \<in> set funcs \<and> c \<in> calls_of f)} else None)"
    for k
  proof -
    have "{c. c \<in> ?K \<and> (\<exists>f. (k, f) \<in> set funcs \<and> c \<in> set (e (calls_of f)))}
        = {c. c \<in> ?K \<and> (\<exists>f. (k, f) \<in> set funcs \<and> c \<in> calls_of f)}"
      using enum by blast
    with es_map0 [of k] show ?thesis by (simp only: ns)
  qed
  have dist: "distinct (map fst es)" by (simp add: es_keys distinct_empty_sets)
  have sub: "S \<subseteq> ?K" if "(a, S) \<in> set es" for a S
  proof -
    from that dist have "map_of es a = Some S" by simp
    then show ?thesis by (auto simp: es_map split: if_splits)
  qed
  have fin_es: "\<forall>(a, S) \<in> set es. finite S"
  proof (clarify)
    fix a S assume "(a, S) \<in> set es"
    then have "S \<subseteq> ?K" by (rule sub)
    then show "finite S" by (rule finite_subset) simp
  qed
  have it: "set (iteration e es) = {(a, b). b \<in> members es a}"
  proof -
    have "(\<exists>S. (a, S) \<in> set es \<and> b \<in> S) \<longleftrightarrow> b \<in> members es a" for a b
    proof -
      have "(a, S) \<in> set es \<longleftrightarrow> map_of es a = Some S" for S
        using dist by simp
      then show ?thesis by (auto simp: members_def split: option.splits)
    qed
    then show ?thesis
      unfolding set_iteration_valid [OF ve fin_es] by blast
  qed
  have in_keys: "a \<in> ?K \<and> b \<in> ?K" if "b \<in> members es a" for a b
    using that by (auto simp: members_def es_map split: option.splits if_splits)
  have "\<forall>(a, b) \<in> set (iteration e es). b \<in> set ?ns \<and> b \<noteq> a \<longrightarrow> a \<in> set ?ns"
    using in_keys by (auto simp: it)
  from build_groups_total [OF this] obtain gs where gs: "build_groups e ?ns es = Inr gs"
    by blast
  have "\<forall>(a, b) \<in> set (iteration e es). b \<in> set ?ns"
    using in_keys by (auto simp: it)
  then obtain cs where cs: "callers_map e ?ns es = Inr cs"
    and cs_keys: "map fst cs = map fst (empty_sets ?ns)"
    and cs_map0: "\<And>k. map_of cs k =
           (if k \<in> set ?ns then Some {a. (a, k) \<in> set (iteration e es)} else None)"
    by (rule callers_map_result [where e = e]) blast
  have cs_map: "map_of cs k = (if k \<in> ?K then Some {a. k \<in> members es a} else None)" for k
    using cs_map0 [of k] by (simp add: it)
  let ?r = "\<lparr>file_names = ?ns, file_edges = es, file_groups = gs, file_callers = cs\<rparr>"
  have "length ?ns \<noteq> 0" using False by simp
  then have ne: "?ns \<noteq> []" by (simp only: length_0_conv not_False_eq_True)
  have run: "analyze e calls_of funcs = Inr ?r"
    using ne by (simp add: analyze_def Let_def es gs cs)
  show thesis
    by (rule that [of ?r]) (simp_all add: run es_keys es_map it gs cs_keys cs_map)
qed

section \<open>The heuristic extractor as one loop over its candidates\<close>

lemma fold_js_step:
  "fold (js_step code) ms seen = fold keep (List.map_filter (js_candidate code) ms) seen"
  by (induction ms arbitrary: seen) (auto simp: js_step_def split: option.splits)

lemma parse_js_functions_fold: "parse_js_functions code = fold keep (js_candidates code) []"
proof -
  have "fold (\<lambda>(rx, kind) seen. fold (js_step code) (finditer rx code) seen) ps seen
      = fold keep (concat (map (\<lambda>(rx, kind). List.map_filter (js_candidate code) (finditer rx code)) ps)) seen"
    for ps :: "(regex \<times> string) list" and seen
    by (induction ps arbitrary: seen) (auto simp: fold_js_step)
  then show ?thesis by (simp add: parse_js_functions_def js_candidates_def)
qed

lemma js_candidates_origin:
  "f \<in> set (js_candidates code) \<Longrightarrow> \<exists>m. js_candidate code m = Some f"
  by (fastforce simp: js_candidates_def List.map_filter_def)

lemma harvest_fold:
  "fold (\<lambda>(cm_start, cm_end, callee) calls.
           if callee \<notin> N then insert callee calls else calls) ms S
     = S \<union> {c \<in> (\<lambda>m. snd (snd m)) ` set ms. c \<notin> N}"
proof (induction ms arbitrary: S)
  case Nil
  show ?case by simp
next
  case (Cons m ms)
  obtain a b c where m: "m = (a, b, c)" by (cases m)
  show ?case
    by (cases "c \<in> N") (auto simp: m Cons.IH)
qed

lemma harvest_calls_facts: "finite (harvest_calls body)" "harvest_calls body \<inter> not_callees = {}"
  by (auto simp: harvest_calls_def harvest_fold)

lemma js_candidate_facts:
  assumes "js_candidate code m = Some f"
  shows "finite (js_calls f)" and "js_calls f \<inter> not_callees = {}"
proof -
  obtain a b nm where m: "m = (a, b, nm)" by (cases m)
  from assms obtain body where "js_calls f = harvest_calls body"
    by (auto simp: js_candidate_def m Let_def split: if_splits)
  then show "finite (js_calls f)" and "js_calls f \<inter> not_callees = {}"
    by (simp_all add: harvest_calls_facts)
qed

lemma keep_map_of:
  "map_of (keep jf seen) =
     (case map_of seen (js_name jf) of
        None \<Rightarrow> (map_of seen)(js_name jf \<mapsto> jf)
      | Some old \<Rightarrow> if span_len old < span_len jf then (map_of seen)(js_name jf \<mapsto> jf)
                    else map_of seen)"
  by (simp add: keep_def span_len_def update_conv' split: option.splits)

lemma keep_distinct: "distinct (map fst seen) \<Longrightarrow> distinct (map fst (keep jf seen))"
  by (simp add: keep_def distinct_update split: option.splits)

lemma kept_invariant:
  "distinct (map fst (fold keep cs [])) \<and>
   (\<forall>c \<in> set cs. map_of (fold keep cs []) (js_name c) \<noteq> None) \<and>
   (\<forall>n k. map_of (fold keep cs []) n = Some k \<longrightarrow>
      js_name k = n \<and>
      (\<exists>i < length cs. cs ! i = k \<and>
         (\<forall>j < length cs. js_name (cs ! j) = n \<longrightarrow>
            span_len (cs ! j) \<le> span_len k \<and> (j < i \<longrightarrow> span_len (cs ! j) < span_len k))))"
proof (induction cs rule: rev_induct)
  case Nil
  show ?case by simp
next
  case (snoc c cs)
  let ?D = "fold keep cs []"
  let ?D' = "fold keep (cs @ [c]) []"
  have D': "?D' = keep c ?D" by simp
  from snoc have dist: "distinct (map fst ?D)"
    and pres: "\<forall>x \<in> set cs. map_of ?D (js_name x) \<noteq> None"
    and IH: "\<And>n k. map_of ?D n = Some k \<Longrightarrow>
      js_name k = n \<and>
      (\<exists>i < length cs. cs ! i = k \<and>
         (\<forall>j < length cs. js_name (cs ! j) = n \<longrightarrow>
            span_len (cs ! j) \<le> span_len k \<and> (j < i \<longrightarrow> span_len (cs ! j) < span_len k)))"
    by blast+
  have 1: "distinct (map fst ?D')" unfolding D' using dist by (rule keep_distinct)
  have 2: "\<forall>x \<in> set (cs @ [c]). map_of ?D' (js_name x) \<noteq> None"
    using pres unfolding D' keep_map_of by (auto split: option.splits)
  have 3: "js_name k = n \<and>
      (\<exists>i < length (cs @ [c]). (cs @ [c]) ! i = k \<and>
         (\<forall>j < length (cs @ [c]). js_name ((cs @ [c]) ! j) = n \<longrightarrow>
            span_len ((cs @ [c]) ! j) \<le> span_len k \<and>
            (j < i \<longrightarrow> span_len ((cs @ [c]) ! j) < span_len k)))"
    if k: "map_of ?D' n = Some k" for n k
  proof (cases "map_of ?D n = Some k")
    case old: True
    from IH [OF old] obtain i where nm: "js_name k = n" and i: "i < length cs" "cs ! i = k"
      and best: "\<And>j. j < length cs \<Longrightarrow> js_name (cs ! j) = n \<Longrightarrow>
            span_len (cs ! j) \<le> span_len k \<and> (j < i \<longrightarrow> span_len (cs ! j) < span_len k)"
      by blast
    have c: "span_len c \<le> span_len k" if "js_name c = n"
      using k old that unfolding D' keep_map_of by (auto split: option.splits if_splits)
    have "\<forall>j < length (cs @ [c]). js_name ((cs @ [c]) ! j) = n \<longrightarrow>
            span_len ((cs @ [c]) ! j) \<le> span_len k \<and>
            (j < i \<longrightarrow> span_len ((cs @ [c]) ! j) < span_len k)"
    proof (intro allI impI)
      fix j assume j: "j < length (cs @ [c])" and n: "js_name ((cs @ [c]) ! j) = n"
      show "span_len ((cs @ [c]) ! j) \<le> span_len k \<and>
            (j < i \<longrightarrow> span_len ((cs @ [c]) ! j) < span_len k)"
      proof (cases "j < length cs")
        case True
        with best [of j] n show ?thesis by (simp add: nth_append)
      next
        case False
        with j have "j = length cs" by simp
        with n c i show ?thesis by (simp add: nth_append)
      qed
    qed
    with nm i show ?thesis by (auto simp: nth_append intro!: exI [of _ i])
  next
    case new: False
    with k have n: "n = js_name c" and kc: "k = c"
      unfolding D' keep_map_of by (auto split: option.splits if_splits)
    have "\<forall>j < length (cs @ [c]). js_name ((cs @ [c]) ! j) = n \<longrightarrow>
            span_len ((cs @ [c]) ! j) \<le> span_len k \<and>
            (j < length cs \<longrightarrow> span_len ((cs @ [c]) ! j) < span_len k)"
    proof (intro allI impI)
      fix j assume j: "j < length (cs @ [c])" and nj: "js_name ((cs @ [c]) ! j) = n"
      show "span_len ((cs @ [c]) ! j) \<le> span_len k \<and>
            (j < length cs \<longrightarrow> span_len ((cs @ [c]) ! j) < span_len k)"
      proof (cases "j < length cs")
        case True
        then have mem: "cs ! j \<in> set cs" by simp
        from nj True have nm: "js_name (cs ! j) = n" by (simp add: nth_append)
        from pres mem nm obtain old where old: "map_of ?D n = Some old" by auto
        from IH [OF old] True nm have le: "span_len (cs ! j) \<le> span_len old" by blast
        from k old new have "span_len old < span_len c"
          unfolding D' keep_map_of n by (auto split: if_splits)
        with le True show ?thesis by (simp add: nth_append kc)
      next
        case False
        with j have "j = length cs" by simp
        then show ?thesis by (simp add: kc)
      qed
    qed
    then show ?thesis by (auto simp: n kc intro!: exI [of _ "length cs"])
  qed
  from 1 2 3 show ?case by blast
qed

lemma set_update_cases:
  "p \<in> set (AList.update k v al) \<Longrightarrow> p = (k, v) \<or> p \<in> set al"
  by (induction al) (auto split: if_splits)

lemma parse_js_functions_members:
  assumes "(n, f) \<in> set (parse_js_functions code)"
  shows "f \<in> set (js_candidates code)" and "js_name f = n"
proof -
  note inv = kept_invariant [of "js_candidates code", folded parse_js_functions_fold]
  from inv assms have "map_of (parse_js_functions code) n = Some f" by simp
  with inv obtain i where "js_name f = n" and "i < length (js_candidates code)"
    and "js_candidates code ! i = f"
    by blast
  then show "f \<in> set (js_candidates code)" and "js_name f = n"
    by auto
qed

lemma js_calls_finite: "\<forall>(n, f) \<in> set (parse_js_functions code). finite (js_calls f)"
  using parse_js_functions_members(1) js_candidates_origin js_candidate_facts(1) by blast

lemma js_calls_not_callees:
  "(n, f) \<in> set (parse_js_functions code) \<Longrightarrow> js_calls f \<inter> not_callees = {}"
  using parse_js_functions_members(1) js_candidates_origin js_candidate_facts(2) by blast

lemma finite_visit_calls: "finite (visit_calls t)"
  by (induction t) (auto split: call_func.splits)

lemma collect_def_finite:
  "\<forall>(n, f) \<in> set funcs. finite (py_calls f) \<Longrightarrow>
   \<forall>(n, f) \<in> set (collect_def node funcs). finite (py_calls f)"
  by (cases node) (auto dest!: set_update_cases)

lemma add_calls_finite:
  "\<forall>(n, f) \<in> set funcs. finite (py_calls f) \<Longrightarrow> finite cs \<Longrightarrow>
   \<forall>(n, f) \<in> set (add_calls cur cs funcs). finite (py_calls f)"
  by (auto simp: add_calls_def split: option.splits dest!: set_update_cases map_of_SomeD)

lemma collect_calls_finite:
  assumes "\<forall>(n, f) \<in> set funcs. finite (py_calls f)"
  shows "\<forall>(n, f) \<in> set (collect_calls node funcs). finite (py_calls f)"
proof (cases node)
  case (FunctionDef nm l1 l2 seg cs)
  show ?thesis
    unfolding FunctionDef collect_calls.simps
    using assms finite_visit_calls by (rule add_calls_finite)
next
  case (AsyncFunctionDef nm l1 l2 seg cs)
  show ?thesis
    unfolding AsyncFunctionDef collect_calls.simps
    using assms finite_visit_calls by (rule add_calls_finite)
next
  case (Call fn cs)
  then show ?thesis using assms by simp
next
  case (Node cs)
  then show ?thesis using assms by simp
qed

lemma py_calls_finite:
  "\<forall>(n, f) \<in> set (parse_python_functions ast_parse code). finite (py_calls f)"
proof -
  have a: "\<forall>(n, f) \<in> set (fold collect_def nodes funcs). finite (py_calls f)"
    if "\<forall>(n, f) \<in> set funcs. finite (py_calls f)" for nodes funcs
    using that
  proof (induction nodes arbitrary: funcs)
    case Nil
    then show ?case by simp
  next
    case (Cons node nodes)
    from Cons.IH [OF collect_def_finite [OF Cons.prems]] show ?case by simp
  qed
  have b: "\<forall>(n, f) \<in> set (fold collect_calls nodes funcs). finite (py_calls f)"
    if "\<forall>(n, f) \<in> set funcs. finite (py_calls f)" for nodes funcs
    using that
  proof (induction nodes arbitrary: funcs)
    case Nil
    then show ?case by simp
  next
    case (Cons node nodes)
    from Cons.IH [OF collect_calls_finite [OF Cons.prems]] show ?case by simp
  qed
  show ?thesis
  proof (cases "ast_parse code")
    case (Inl exn)
    then show ?thesis by (simp add: parse_python_functions_def)
  next
    case (Inr tree)
    have "\<forall>(n, f) \<in> set ([] :: py_function dict). finite (py_calls f)" by simp
    from b [OF a [OF this], of "ast_walk [tree]" "ast_walk [tree]"] show ?thesis
      unfolding parse_python_functions_def Inr by (simp only: sum.case)
  qed
qed

section \<open>The groups are a partition\<close>

lemma analyze_partition:
  assumes "valid_enum e" and "\<forall>(n, f) \<in> set funcs. finite (calls_of f)"
  shows "\<exists>r. analyze e calls_of funcs = Inr r \<and> partition_of (file_groups r) (fst ` set funcs)"
proof -
  from assms obtain r where r: "analyze e calls_of funcs = Inr r"
    and ns: "file_names r = sort (map fst funcs)"
    and gs: "build_groups e (file_names r) (file_edges r) = Inr (file_groups r)"
    by (rule analyze_result)
  have "set (file_names r) = fst ` set funcs" by (simp add: ns)
  with build_groups_facts [OF gs] have "partition_of (file_groups r) (fst ` set funcs)"
    by (intro partition_ofI) simp_all
  with r show ?thesis by blast
qed

text \<open>
  Claim C1. For every JavaScript text and every Python text, \<^verbatim>\<open>analyze_file\<close> reaches its
  list of groups without an error, and the list is a partition of the extracted function
  names: the groups cover the names, none is empty, and no name is in two of them.
\<close>

theorem groups_partition:
  assumes "valid_enum e"
  shows "(\<exists>r. analyze_js e code = Inr r \<and>
              partition_of (file_groups r) (fst ` set (parse_js_functions code))) \<and>
         (\<exists>r. analyze_python e ast_parse code' = Inr r \<and>
              partition_of (file_groups r) (fst ` set (parse_python_functions ast_parse code')))"
  unfolding analyze_js_def analyze_python_def
  using analyze_partition [OF assms js_calls_finite] analyze_partition [OF assms py_calls_finite]
  by blast

theorem groups_partition_witness:
  "valid_enum sorted_list_of_set \<and>
   (\<exists>r. analyze_js sorted_list_of_set ''function f() { if (x) { g(); } } function g() { h(); }''
          = Inr r \<and>
        file_groups r = [{''f'', ''g''}, {''if''}] \<and>
        partition_of (file_groups r)
          (fst ` set (parse_js_functions
             ''function f() { if (x) { g(); } } function g() { h(); }''))) \<and>
   (\<exists>r. analyze_python sorted_list_of_set
          (\<lambda>c. Inr (Node [FunctionDef ''f'' 1 2 ''def f():'' [Call (Name ''g'') []],
                          FunctionDef ''g'' 3 4 ''def g():'' [Call (Attribute ''g'') []],
                          FunctionDef ''h'' 5 6 ''def h():'' []]) :: string + py_ast)
          ''def f():'' = Inr r \<and>
        file_groups r = [{''f'', ''g''}, {''h''}] \<and>
        partition_of (file_groups r)
          (fst ` set (parse_python_functions
             (\<lambda>c. Inr (Node [FunctionDef ''f'' 1 2 ''def f():'' [Call (Name ''g'') []],
                             FunctionDef ''g'' 3 4 ''def g():'' [Call (Attribute ''g'') []],
                             FunctionDef ''h'' 5 6 ''def h():'' []]) :: string + py_ast)
             ''def f():'')))"
proof -
  have v: "valid_enum sorted_list_of_set" by (simp add: valid_enum_def)
  have js: "map_sum id file_groups
      (analyze_js sorted_list_of_set ''function f() { if (x) { g(); } } function g() { h(); }'')
      = Inr [{''f'', ''g''}, {''if''}]"
    by code_simp
  have py: "map_sum id file_groups
      (analyze_python sorted_list_of_set
          (\<lambda>c. Inr (Node [FunctionDef ''f'' 1 2 ''def f():'' [Call (Name ''g'') []],
                          FunctionDef ''g'' 3 4 ''def g():'' [Call (Attribute ''g'') []],
                          FunctionDef ''h'' 5 6 ''def h():'' []]) :: string + py_ast)
          ''def f():'')
      = Inr [{''f'', ''g''}, {''h''}]"
    by code_simp
  from groups_partition [OF v,
      of "''function f() { if (x) { g(); } } function g() { h(); }''"
         "\<lambda>c. Inr (Node [FunctionDef ''f'' 1 2 ''def f():'' [Call (Name ''g'') []],
                          FunctionDef ''g'' 3 4 ''def g():'' [Call (Attribute ''g'') []],
                          FunctionDef ''h'' 5 6 ''def h():'' []]) :: string + py_ast"
         "''def f():''"]
  show ?thesis using v js py by auto
qed

section \<open>The order of the groups\<close>

lemma group_key_le:
  assumes "finite g" "g \<noteq> {}" "finite h" "h \<noteq> {}" "g \<inter> h = {}"
    and "group_key g \<le> group_key h"
  shows "group_before g h"
proof -
  have hd: "hd (sorted_list_of_set A) = Min A" if "finite A" "A \<noteq> {}" for A :: "name set"
    using sorted_list_of_set_nonempty [OF that] by simp
  have "Min g \<in> g" "Min h \<in> h" using assms by simp_all
  with assms(5) have ne: "Min g \<noteq> Min h" by auto
  from assms(6) have "card h < card g \<or> (card g = card h \<and> Min g \<le> Min h)"
    using assms(1-4) by (auto simp: group_key_def hd less_eq_prod_def)
  with ne show ?thesis by (auto simp: group_before_def)
qed

lemma build_groups_sorted:
  assumes "build_groups e ns es = Inr gs"
  shows "sorted_wrt group_before gs"
proof -
  from assms obtain g seen gs0 where "build_graph e ns es = Inr g"
    and "foldE (visit g) ns ({}, []) = Inr (seen, gs0)"
    and gs: "gs = sort_key group_key gs0"
    by (rule build_groups_result)
  note facts = build_groups_facts [OF assms]
  have fin: "finite x" if "x \<in> set gs" for x
  proof -
    from that facts(1) have "x \<subseteq> set ns" by auto
    then show ?thesis by (rule finite_subset) simp
  qed
  have "sorted (map group_key gs)" by (simp add: gs)
  then have key: "sorted_wrt (\<lambda>x y. group_key x \<le> group_key y) gs"
    by (simp add: sorted_map)
  show ?thesis
    unfolding sorted_wrt_iff_nth_less
  proof (intro allI impI)
    fix i j assume ij: "i < j" "j < length gs"
    then have mem: "gs ! i \<in> set gs" "gs ! j \<in> set gs" by simp_all
    from ij facts(3) have "gs ! i \<noteq> gs ! j" by (simp add: nth_eq_iff_index_eq)
    with facts(4) mem have disj: "gs ! i \<inter> gs ! j = {}" by blast
    from key ij have "group_key (gs ! i) \<le> group_key (gs ! j)"
      by (simp add: sorted_wrt_iff_nth_less)
    with fin mem facts(2) disj show "group_before (gs ! i) (gs ! j)"
      by (intro group_key_le) auto
  qed
qed

lemma analyze_sorted:
  assumes "valid_enum e" and "\<forall>(n, f) \<in> set funcs. finite (calls_of f)"
  shows "\<exists>r. analyze e calls_of funcs = Inr r \<and> sorted_wrt group_before (file_groups r)"
proof -
  from assms obtain r where r: "analyze e calls_of funcs = Inr r"
    and gs: "build_groups e (file_names r) (file_edges r) = Inr (file_groups r)"
    by (rule analyze_result)
  from build_groups_sorted [OF gs] r show ?thesis by blast
qed

text \<open>
  Claim C4. The list of groups that \<^verbatim>\<open>analyze_file\<close> gets is in the order of
  \<open>group_before\<close>: of two groups the earlier one is larger, or they have one size and the
  smallest name of the earlier one is smaller. The order is strict, so the list has one
  possible arrangement only.
\<close>

theorem groups_order:
  assumes "valid_enum e"
  shows "(\<exists>r. analyze_js e code = Inr r \<and> sorted_wrt group_before (file_groups r)) \<and>
         (\<exists>r. analyze_python e ast_parse code' = Inr r \<and> sorted_wrt group_before (file_groups r))"
  unfolding analyze_js_def analyze_python_def
  using analyze_sorted [OF assms js_calls_finite] analyze_sorted [OF assms py_calls_finite]
  by blast

theorem groups_order_witness:
  "valid_enum sorted_list_of_set \<and>
   (\<exists>r. analyze_js sorted_list_of_set ''function f() { if (x) { g(); } } function g() { h(); }''
          = Inr r \<and>
        file_groups r = [{''f'', ''g''}, {''if''}] \<and>
        sorted_wrt group_before (file_groups r)) \<and>
   (\<exists>r. analyze_python sorted_list_of_set
          (\<lambda>c. Inr (Node [FunctionDef ''k'' 1 2 ''def k():'' [],
                          FunctionDef ''g'' 3 4 ''def g():'' [Call (Name ''m'') []],
                          AsyncFunctionDef ''m'' 5 6 ''async def m():'' [],
                          FunctionDef ''h'' 7 8 ''def h():'' []]) :: string + py_ast)
          ''def k():'' = Inr r \<and>
        file_groups r = [{''g'', ''m''}, {''h''}, {''k''}] \<and>
        sorted_wrt group_before (file_groups r))"
proof -
  have v: "valid_enum sorted_list_of_set" by (simp add: valid_enum_def)
  have js: "map_sum id file_groups
      (analyze_js sorted_list_of_set ''function f() { if (x) { g(); } } function g() { h(); }'')
      = Inr [{''f'', ''g''}, {''if''}]"
    by code_simp
  have py: "map_sum id file_groups
      (analyze_python sorted_list_of_set
          (\<lambda>c. Inr (Node [FunctionDef ''k'' 1 2 ''def k():'' [],
                          FunctionDef ''g'' 3 4 ''def g():'' [Call (Name ''m'') []],
                          AsyncFunctionDef ''m'' 5 6 ''async def m():'' [],
                          FunctionDef ''h'' 7 8 ''def h():'' []]) :: string + py_ast)
          ''def k():'')
      = Inr [{''g'', ''m''}, {''h''}, {''k''}]"
    by code_simp
  from groups_order [OF v,
      of "''function f() { if (x) { g(); } } function g() { h(); }''"
         "\<lambda>c. Inr (Node [FunctionDef ''k'' 1 2 ''def k():'' [],
                          FunctionDef ''g'' 3 4 ''def g():'' [Call (Name ''m'') []],
                          AsyncFunctionDef ''m'' 5 6 ''async def m():'' [],
                          FunctionDef ''h'' 7 8 ''def h():'' []]) :: string + py_ast"
         "''def k():''"]
  show ?thesis using v js py by auto
qed

section \<open>Resolved edges, their inverse, and two runs\<close>

lemma analyze_edges:
  assumes "valid_enum e" and "\<forall>(n, f) \<in> set funcs. finite (calls_of f)"
  shows "\<exists>r. analyze e calls_of funcs = Inr r \<and>
           (\<forall>a b. b \<in> members (file_edges r) a \<longleftrightarrow>
                    b \<in> fst ` set funcs \<and> (\<exists>f. (a, f) \<in> set funcs \<and> b \<in> calls_of f)) \<and>
           (\<forall>a b. a \<in> members (file_callers r) b \<longleftrightarrow> b \<in> members (file_edges r) a)"
proof -
  from assms obtain r where r: "analyze e calls_of funcs = Inr r"
    and es: "\<And>k. map_of (file_edges r) k =
           (if k \<in> fst ` set funcs
            then Some {c. c \<in> fst ` set funcs \<and> (\<exists>f. (k, f) \<in> set funcs \<and> c \<in> calls_of f)}
            else None)"
    and cs: "\<And>k. map_of (file_callers r) k =
           (if k \<in> fst ` set funcs then Some {a. k \<in> members (file_edges r) a} else None)"
    by (rule analyze_result) blast
  have 1: "b \<in> members (file_edges r) a \<longleftrightarrow>
      b \<in> fst ` set funcs \<and> (\<exists>f. (a, f) \<in> set funcs \<and> b \<in> calls_of f)" for a b
    unfolding members_def es by (force split: if_splits)
  have 2: "a \<in> members (file_callers r) b \<longleftrightarrow> b \<in> members (file_edges r) a" for a b
  proof (cases "b \<in> fst ` set funcs")
    case True
    then show ?thesis by (simp add: members_def [of "file_callers r"] cs)
  next
    case False
    then show ?thesis using 1 [of b a] by (simp add: members_def [of "file_callers r"] cs)
  qed
  from r 1 2 show ?thesis by blast
qed

text \<open>
  Claim C8. For every JavaScript text and every Python text, \<^verbatim>\<open>edges\<close> holds \<open>b\<close> under
  \<open>a\<close> exactly when \<open>a\<close> is an extracted function whose raw callees contain \<open>b\<close> and
  \<open>b\<close> is itself the name of an extracted function, and \<^verbatim>\<open>callers\<close> is the inverse of
  \<^verbatim>\<open>edges\<close>.
\<close>

theorem edges_resolved_and_inverted:
  assumes "valid_enum e"
  shows "(\<exists>r. analyze_js e code = Inr r \<and>
           (\<forall>a b. b \<in> members (file_edges r) a \<longleftrightarrow>
                    b \<in> fst ` set (parse_js_functions code) \<and>
                    (\<exists>f. (a, f) \<in> set (parse_js_functions code) \<and> b \<in> js_calls f)) \<and>
           (\<forall>a b. a \<in> members (file_callers r) b \<longleftrightarrow> b \<in> members (file_edges r) a)) \<and>
         (\<exists>r. analyze_python e ast_parse code' = Inr r \<and>
           (\<forall>a b. b \<in> members (file_edges r) a \<longleftrightarrow>
                    b \<in> fst ` set (parse_python_functions ast_parse code') \<and>
                    (\<exists>f. (a, f) \<in> set (parse_python_functions ast_parse code') \<and> b \<in> py_calls f)) \<and>
           (\<forall>a b. a \<in> members (file_callers r) b \<longleftrightarrow> b \<in> members (file_edges r) a))"
  unfolding analyze_js_def analyze_python_def
  using analyze_edges [OF assms js_calls_finite] analyze_edges [OF assms py_calls_finite]
  by blast

theorem edges_resolved_and_inverted_witness:
  "valid_enum sorted_list_of_set \<and>
   map_sum id (\<lambda>r. (file_edges r, file_callers r))
      (analyze_js sorted_list_of_set ''function f() { if (x) { g(); } } function g() { h(); }'')
      = Inr ([(''f'', {''g''}), (''g'', {}), (''if'', {})],
             [(''f'', {}), (''g'', {''f''}), (''if'', {})]) \<and>
   map_sum id (\<lambda>r. (file_edges r, file_callers r))
      (analyze_python sorted_list_of_set
          (\<lambda>c. Inr (Node [FunctionDef ''f'' 1 2 ''def f():'' [Call (Name ''g'') []],
                          FunctionDef ''g'' 3 4 ''def g():'' [Call (Attribute ''print'') []]])
                :: string + py_ast)
          ''def f():'')
      = Inr ([(''f'', {''g''}), (''g'', {})], [(''f'', {}), (''g'', {''f''})]) \<and>
   (\<exists>r. analyze_js sorted_list_of_set ''function f() { if (x) { g(); } } function g() { h(); }''
          = Inr r \<and>
        (\<forall>a b. b \<in> members (file_edges r) a \<longleftrightarrow>
           b \<in> fst ` set (parse_js_functions
                  ''function f() { if (x) { g(); } } function g() { h(); }'') \<and>
           (\<exists>f. (a, f) \<in> set (parse_js_functions
                  ''function f() { if (x) { g(); } } function g() { h(); }'') \<and>
                b \<in> js_calls f)) \<and>
        (\<forall>a b. a \<in> members (file_callers r) b \<longleftrightarrow> b \<in> members (file_edges r) a))"
proof -
  have v: "valid_enum sorted_list_of_set" by (simp add: valid_enum_def)
  have js: "map_sum id (\<lambda>r. (file_edges r, file_callers r))
      (analyze_js sorted_list_of_set ''function f() { if (x) { g(); } } function g() { h(); }'')
      = Inr ([(''f'', {''g''}), (''g'', {}), (''if'', {})],
             [(''f'', {}), (''g'', {''f''}), (''if'', {})])"
    by code_simp
  have py: "map_sum id (\<lambda>r. (file_edges r, file_callers r))
      (analyze_python sorted_list_of_set
          (\<lambda>c. Inr (Node [FunctionDef ''f'' 1 2 ''def f():'' [Call (Name ''g'') []],
                          FunctionDef ''g'' 3 4 ''def g():'' [Call (Attribute ''print'') []]])
                :: string + py_ast)
          ''def f():'')
      = Inr ([(''f'', {''g''}), (''g'', {})], [(''f'', {}), (''g'', {''f''})])"
    by code_simp
  note inst = edges_resolved_and_inverted [OF v,
      of "''function f() { if (x) { g(); } } function g() { h(); }''"
         "\<lambda>c. Inr (Node []) :: string + py_ast" "[]", THEN conjunct1]
  show ?thesis by (rule conjI [OF v conjI [OF js conjI [OF py inst]]])
qed

lemma build_groups_order_free:
  assumes "set (iteration e1 es) = set (iteration e2 es)"
    and "build_groups e1 ns es = Inr gs1" and "build_groups e2 ns es = Inr gs2"
  shows "gs1 = gs2"
proof -
  from assms(2) obtain g1 seen1 gs01 where g1: "build_graph e1 ns es = Inr g1"
    and l1: "foldE (visit g1) ns ({}, []) = Inr (seen1, gs01)"
    and s1: "gs1 = sort_key group_key gs01"
    by (rule build_groups_result)
  from assms(3) obtain g2 seen2 gs02 where g2: "build_graph e2 ns es = Inr g2"
    and l2: "foldE (visit g2) ns ({}, []) = Inr (seen2, gs02)"
    and s2: "gs2 = sort_key group_key gs02"
    by (rule build_groups_result)
  have "map_of g1 = map_of g2"
    using build_graph_result(1) [OF g1] build_graph_result(1) [OF g2] assms(1)
    by (simp add: fun_eq_iff)
  moreover have "map fst g1 = map fst g2"
    using build_graph_result(4) [OF g1] build_graph_result(4) [OF g2] by simp
  moreover have "distinct (map fst g1)"
    using build_graph_result(4) [OF g1] by (simp add: distinct_empty_sets)
  ultimately have "g1 = g2" by (intro dict_eqI)
  with l1 l2 s1 s2 show ?thesis by simp
qed

lemma analyze_order_free:
  assumes "valid_enum e1" and "valid_enum e2" and fin: "\<forall>(n, f) \<in> set funcs. finite (calls_of f)"
  shows "analyze e1 calls_of funcs = analyze e2 calls_of funcs"
proof -
  from assms(1) fin obtain r1 where r1: "analyze e1 calls_of funcs = Inr r1"
    and n1: "file_names r1 = sort (map fst funcs)"
    and ek1: "map fst (file_edges r1) = map fst (empty_sets (file_names r1))"
    and em1: "\<And>k. map_of (file_edges r1) k =
           (if k \<in> fst ` set funcs
            then Some {c. c \<in> fst ` set funcs \<and> (\<exists>f. (k, f) \<in> set funcs \<and> c \<in> calls_of f)}
            else None)"
    and it1: "set (iteration e1 (file_edges r1)) = {(a, b). b \<in> members (file_edges r1) a}"
    and g1: "build_groups e1 (file_names r1) (file_edges r1) = Inr (file_groups r1)"
    and ck1: "map fst (file_callers r1) = map fst (empty_sets (file_names r1))"
    and cm1: "\<And>k. map_of (file_callers r1) k =
           (if k \<in> fst ` set funcs then Some {a. k \<in> members (file_edges r1) a} else None)"
    by (rule analyze_result) blast
  from assms(2) fin obtain r2 where r2: "analyze e2 calls_of funcs = Inr r2"
    and n2: "file_names r2 = sort (map fst funcs)"
    and ek2: "map fst (file_edges r2) = map fst (empty_sets (file_names r2))"
    and em2: "\<And>k. map_of (file_edges r2) k =
           (if k \<in> fst ` set funcs
            then Some {c. c \<in> fst ` set funcs \<and> (\<exists>f. (k, f) \<in> set funcs \<and> c \<in> calls_of f)}
            else None)"
    and it2: "set (iteration e2 (file_edges r2)) = {(a, b). b \<in> members (file_edges r2) a}"
    and g2: "build_groups e2 (file_names r2) (file_edges r2) = Inr (file_groups r2)"
    and ck2: "map fst (file_callers r2) = map fst (empty_sets (file_names r2))"
    and cm2: "\<And>k. map_of (file_callers r2) k =
           (if k \<in> fst ` set funcs then Some {a. k \<in> members (file_edges r2) a} else None)"
    by (rule analyze_result) blast
  have names: "file_names r1 = file_names r2" by (simp add: n1 n2)
  have "map_of (file_edges r1) = map_of (file_edges r2)" by (simp add: fun_eq_iff em1 em2)
  moreover have "distinct (map fst (file_edges r1))" by (simp add: ek1 distinct_empty_sets)
  moreover have "map fst (file_edges r1) = map fst (file_edges r2)" by (simp add: ek1 ek2 names)
  ultimately have edges: "file_edges r1 = file_edges r2" by (intro dict_eqI)
  have "set (iteration e1 (file_edges r1)) = set (iteration e2 (file_edges r1))"
    using it1 it2 by (simp add: edges)
  from build_groups_order_free [OF this g1] g2
  have groups: "file_groups r1 = file_groups r2" by (simp add: names edges)
  have "map_of (file_callers r1) = map_of (file_callers r2)"
    by (simp add: fun_eq_iff cm1 cm2 edges)
  moreover have "distinct (map fst (file_callers r1))" by (simp add: ck1 distinct_empty_sets)
  moreover have "map fst (file_callers r1) = map fst (file_callers r2)"
    by (simp add: ck1 ck2 names)
  ultimately have callers: "file_callers r1 = file_callers r2" by (intro dict_eqI)
  from names edges groups callers have "r1 = r2" by (intro analysis.equality) simp_all
  with r1 r2 show ?thesis by simp
qed

text \<open>
  Claim C9. The functions \<^verbatim>\<open>parse_js_functions\<close> and \<^verbatim>\<open>parse_python_functions\<close> iterate
  no set, so the records they return depend on the text alone. What is left to differ
  between two runs is the order in which the interpreter iterates the sets of names: with
  any two such orders \<open>e1\<close> and \<open>e2\<close>, names, edges, callers and the list of groups of the
  two runs are the same.
\<close>

theorem two_runs_agree:
  assumes "valid_enum e1" and "valid_enum e2"
  shows "analyze_js e1 code = analyze_js e2 code \<and>
         analyze_python e1 ast_parse code' = analyze_python e2 ast_parse code'"
  unfolding analyze_js_def analyze_python_def
  using analyze_order_free [OF assms js_calls_finite] analyze_order_free [OF assms py_calls_finite]
  by blast

theorem two_runs_agree_witness:
  "valid_enum sorted_list_of_set \<and> valid_enum (\<lambda>S. rev (sorted_list_of_set S)) \<and>
   analyze_js sorted_list_of_set ''function f() { if (x) { g(); } } function g() { h(); }''
     = analyze_js (\<lambda>S. rev (sorted_list_of_set S))
         ''function f() { if (x) { g(); } } function g() { h(); }'' \<and>
   analyze_python sorted_list_of_set
       (\<lambda>c. Inr (Node [FunctionDef ''f'' 1 2 ''def f():'' [Call (Name ''g'') []],
                       FunctionDef ''g'' 3 4 ''def g():'' []]) :: string + py_ast) ''def f():''
     = analyze_python (\<lambda>S. rev (sorted_list_of_set S))
         (\<lambda>c. Inr (Node [FunctionDef ''f'' 1 2 ''def f():'' [Call (Name ''g'') []],
                         FunctionDef ''g'' 3 4 ''def g():'' []]) :: string + py_ast) ''def f():''"
proof -
  have v1: "valid_enum sorted_list_of_set" by (simp add: valid_enum_def)
  have v2: "valid_enum (\<lambda>S. rev (sorted_list_of_set S))" by (simp add: valid_enum_def)
  from two_runs_agree [OF v1 v2] v1 v2 show ?thesis by blast
qed

section \<open>A function that only calls itself\<close>

lemma visit_keeps_singleton:
  assumes step: "visit g n (seen, gs) = Inr (seen', gs')"
    and lone: "map_of g f = Some {}"
    and away: "\<forall>k S. map_of g k = Some S \<longrightarrow> finite S \<and> f \<notin> S"
    and inv: "f \<in> seen \<longrightarrow> {f} \<in> set gs"
  shows "f \<in> seen' \<longrightarrow> {f} \<in> set gs'"
proof (cases "n \<in> seen")
  case True
  with step inv show ?thesis by (auto simp: visit_def)
next
  case False
  with step obtain grp where run: "component g [n] seen {} = Inr (seen', grp)"
    and gs': "gs' = gs @ [grp]"
    by (auto simp: visit_def split: sum.splits)
  show ?thesis
  proof (cases "f \<in> seen")
    case True
    with inv show ?thesis by (simp add: gs')
  next
    case unseen: False
    show ?thesis
    proof (cases "n = f")
      case True
      with run unseen lone have "grp = {f}" by simp
      then show ?thesis by (simp add: gs')
    next
      case False
      with component_avoids [OF run unseen _ away] show ?thesis by simp
    qed
  qed
qed

lemma names_loop_keeps_singleton:
  "foldE (visit g) ns (seen, gs) = Inr (seen', gs') \<Longrightarrow> map_of g f = Some {} \<Longrightarrow>
   \<forall>k S. map_of g k = Some S \<longrightarrow> finite S \<and> f \<notin> S \<Longrightarrow> f \<in> seen \<longrightarrow> {f} \<in> set gs \<Longrightarrow>
     f \<in> seen' \<longrightarrow> {f} \<in> set gs'"
proof (induction ns arbitrary: seen gs)
  case Nil
  then show ?case by simp
next
  case (Cons n ns)
  from Cons.prems(1) obtain seen1 gs1 where step: "visit g n (seen, gs) = Inr (seen1, gs1)"
    and rest: "foldE (visit g) ns (seen1, gs1) = Inr (seen', gs')"
    by (auto split: sum.splits)
  from visit_keeps_singleton [OF step Cons.prems(2-4)]
  have "f \<in> seen1 \<longrightarrow> {f} \<in> set gs1" .
  from Cons.IH [OF rest Cons.prems(2,3) this] show ?case .
qed

lemma build_groups_singleton:
  assumes run: "build_groups e ns es = Inr gs" and f: "f \<in> set ns"
    and out: "\<forall>b. (f, b) \<in> set (iteration e es) \<longrightarrow> b = f"
    and inc: "\<forall>a. (a, f) \<in> set (iteration e es) \<longrightarrow> a = f"
  shows "{f} \<in> set gs"
proof -
  from run obtain g seen gs0 where g: "build_graph e ns es = Inr g"
    and loop: "foldE (visit g) ns ({}, []) = Inr (seen, gs0)"
    and gs: "gs = sort_key group_key gs0"
    by (rule build_groups_result)
  note graph = build_graph_result [OF g]
  have lone: "map_of g f = Some {}"
    using graph(1) [of f] f out inc by auto
  have away: "\<forall>k S. map_of g k = Some S \<longrightarrow> finite S \<and> f \<notin> S"
  proof (intro allI impI)
    fix k S assume S: "map_of g k = Some S"
    from graph(2) [OF S] have "finite S" by (rule finite_subset) simp
    moreover have "f \<notin> S" using graph(1) [of k] S out inc by (auto split: if_splits)
    ultimately show "finite S \<and> f \<notin> S" ..
  qed
  have "f \<in> {} \<longrightarrow> {f} \<in> set ([] :: name set list)" by simp
  from names_loop_keeps_singleton [OF loop lone away this]
  have "f \<in> seen \<longrightarrow> {f} \<in> set gs0" .
  moreover have "{} = \<Union> (set ([] :: name set list))" by simp
  from names_loop_result [OF loop this] f have "f \<in> seen" by auto
  ultimately show ?thesis by (simp add: gs)
qed

lemma analyze_singleton:
  assumes "valid_enum e" and "\<forall>(n, f) \<in> set funcs. finite (calls_of f)"
  shows "\<exists>r. analyze e calls_of funcs = Inr r \<and>
           (\<forall>f. members (file_edges r) f = {f} \<and>
                (\<forall>a. a \<noteq> f \<longrightarrow> f \<notin> members (file_edges r) a) \<longrightarrow>
                {f} \<in> set (file_groups r))"
proof -
  from assms obtain r where r: "analyze e calls_of funcs = Inr r"
    and ns: "file_names r = sort (map fst funcs)"
    and em: "\<And>k. map_of (file_edges r) k =
           (if k \<in> fst ` set funcs
            then Some {c. c \<in> fst ` set funcs \<and> (\<exists>f. (k, f) \<in> set funcs \<and> c \<in> calls_of f)}
            else None)"
    and it: "set (iteration e (file_edges r)) = {(a, b). b \<in> members (file_edges r) a}"
    and gs: "build_groups e (file_names r) (file_edges r) = Inr (file_groups r)"
    by (rule analyze_result) blast
  have "{f} \<in> set (file_groups r)"
    if self: "members (file_edges r) f = {f}"
      and others: "\<forall>a. a \<noteq> f \<longrightarrow> f \<notin> members (file_edges r) a" for f
  proof -
    from self have "f \<in> members (file_edges r) f" by simp
    then have "f \<in> fst ` set funcs"
      unfolding members_def em by (auto split: if_splits)
    then have f: "f \<in> set (file_names r)" by (simp add: ns)
    have out: "\<forall>b. (f, b) \<in> set (iteration e (file_edges r)) \<longrightarrow> b = f"
      using self by (simp add: it)
    have inc: "\<forall>a. (a, f) \<in> set (iteration e (file_edges r)) \<longrightarrow> a = f"
      using others by (auto simp: it)
    from gs f out inc show ?thesis by (rule build_groups_singleton)
  qed
  with r show ?thesis by blast
qed

text \<open>
  Claim C10 as it is stated fails when another function calls \<open>f\<close>. In
  \<^verbatim>\<open>function g() { f(); } function f() { f(); }\<close> the only edge that leaves \<open>f\<close> is the
  one to \<open>f\<close> itself, but \<open>g\<close> calls \<open>f\<close>: that edge makes the two neighbours, and the
  one group is \<open>{f, g}\<close>, not \<open>{f}\<close>.
\<close>

theorem called_recursive_function_is_grouped:
  "map_sum id file_edges
     (analyze_js sorted_list_of_set ''function g() { f(); } function f() { f(); }'')
     = Inr [(''f'', {''f''}), (''g'', {''f''})] \<and>
   members [(''f'', {''f''}), (''g'', {''f''})] ''f'' = {''f''} \<and>
   map_sum id file_groups
     (analyze_js sorted_list_of_set ''function g() { f(); } function f() { f(); }'')
     = Inr [{''f'', ''g''}] \<and>
   {''f''} \<notin> set [{''f'', ''g''}]"
  by code_simp

text \<open>
  Claim C10, amended. A function \<open>f\<close> whose only resolved edge, as caller or as callee,
  is the one from \<open>f\<close> to \<open>f\<close> (it calls no other extracted function and no other
  extracted function calls it) is alone in its group: \<open>{f}\<close> is one of the groups.
\<close>

theorem self_edge_is_singleton:
  assumes "valid_enum e"
  shows "(\<exists>r. analyze_js e code = Inr r \<and>
           (\<forall>f. members (file_edges r) f = {f} \<and>
                (\<forall>a. a \<noteq> f \<longrightarrow> f \<notin> members (file_edges r) a) \<longrightarrow>
                {f} \<in> set (file_groups r))) \<and>
         (\<exists>r. analyze_python e ast_parse code' = Inr r \<and>
           (\<forall>f. members (file_edges r) f = {f} \<and>
                (\<forall>a. a \<noteq> f \<longrightarrow> f \<notin> members (file_edges r) a) \<longrightarrow>
                {f} \<in> set (file_groups r)))"
  unfolding analyze_js_def analyze_python_def
  using analyze_singleton [OF assms js_calls_finite] analyze_singleton [OF assms py_calls_finite]
  by blast

theorem self_edge_is_singleton_witness:
  "valid_enum sorted_list_of_set \<and>
   map_sum id (\<lambda>r. (file_edges r, file_groups r))
      (analyze_js sorted_list_of_set ''function d() { d(); }'')
      = Inr ([(''d'', {''d''})], [{''d''}]) \<and>
   map_sum id (\<lambda>r. (file_edges r, file_groups r))
      (analyze_python sorted_list_of_set
          (\<lambda>c. Inr (Node [FunctionDef ''f'' 1 2 ''def f():'' [Call (Name ''f'') []],
                          FunctionDef ''g'' 3 4 ''def g():'' [Call (Name ''h'') []],
                          FunctionDef ''h'' 5 6 ''def h():'' []]) :: string + py_ast)
          ''def f():'')
      = Inr ([(''f'', {''f''}), (''g'', {''h''}), (''h'', {})], [{''g'', ''h''}, {''f''}]) \<and>
   (\<exists>r. analyze_js sorted_list_of_set ''function d() { d(); }'' = Inr r \<and>
        (\<forall>f. members (file_edges r) f = {f} \<and>
             (\<forall>a. a \<noteq> f \<longrightarrow> f \<notin> members (file_edges r) a) \<longrightarrow>
             {f} \<in> set (file_groups r))) \<and>
   (\<exists>r. analyze_python sorted_list_of_set
          (\<lambda>c. Inr (Node [FunctionDef ''f'' 1 2 ''def f():'' [Call (Name ''f'') []],
                          FunctionDef ''g'' 3 4 ''def g():'' [Call (Name ''h'') []],
                          FunctionDef ''h'' 5 6 ''def h():'' []]) :: string + py_ast)
          ''def f():'' = Inr r \<and>
        (\<forall>f. members (file_edges r) f = {f} \<and>
             (\<forall>a. a \<noteq> f \<longrightarrow> f \<notin> members (file_edges r) a) \<longrightarrow>
             {f} \<in> set (file_groups r)))"
proof -
  have v: "valid_enum sorted_list_of_set" by (simp add: valid_enum_def)
  have js: "map_sum id (\<lambda>r. (file_edges r, file_groups r))
      (analyze_js sorted_list_of_set ''function d() { d(); }'')
      = Inr ([(''d'', {''d''})], [{''d''}])"
    by code_simp
  have py: "map_sum id (\<lambda>r. (file_edges r, file_groups r))
      (analyze_python sorted_list_of_set
          (\<lambda>c. Inr (Node [FunctionDef ''f'' 1 2 ''def f():'' [Call (Name ''f'') []],
                          FunctionDef ''g'' 3 4 ''def g():'' [Call (Name ''h'') []],
                          FunctionDef ''h'' 5 6 ''def h():'' []]) :: string + py_ast)
          ''def f():'')
      = Inr ([(''f'', {''f''}), (''g'', {''h''}), (''h'', {})], [{''g'', ''h''}, {''f''}])"
    by code_simp
  note inst = self_edge_is_singleton [OF v,
      of "''function d() { d(); }''"
         "\<lambda>c. Inr (Node [FunctionDef ''f'' 1 2 ''def f():'' [Call (Name ''f'') []],
                          FunctionDef ''g'' 3 4 ''def g():'' [Call (Name ''h'') []],
                          FunctionDef ''h'' 5 6 ''def h():'' []]) :: string + py_ast"
         "''def f():''"]
  show ?thesis by (rule conjI [OF v conjI [OF js conjI [OF py inst]]])
qed

section \<open>Keywords as callees and as function names\<close>

text \<open>
  Claim C3 as it is stated fails for a keyword outside the set of line 187. In
  \<^verbatim>\<open>function f() { try { a(); } catch (e) { if (x) { b(); } } }\<close> the pattern commented
  \<^verbatim>\<open># filtered later\<close> makes \<^verbatim>\<open>catch\<close> a function name, \<^verbatim>\<open>JS_CALL_RE\<close> finds \<^verbatim>\<open>catch (\<close>
  in the body of \<open>f\<close>, and \<^verbatim>\<open>catch\<close> is the callee of an edge in both maps.
\<close>

theorem catch_is_a_callee:
  "map_sum id file_edges
     (analyze_js sorted_list_of_set
        ''function f() { try { a(); } catch (e) { if (x) { b(); } } }'')
     = Inr [(''catch'', {}), (''f'', {''catch''})] \<and>
   map_sum id file_callers
     (analyze_js sorted_list_of_set
        ''function f() { try { a(); } catch (e) { if (x) { b(); } } }'')
     = Inr [(''catch'', {''f''}), (''f'', {})]"
  by code_simp

text \<open>
  Claim C3, amended. For every JavaScript text, no token of the fixed set that the
  harvesting excludes (\<open>not_callees\<close>: \<^verbatim>\<open>if\<close>, \<^verbatim>\<open>for\<close>, \<^verbatim>\<open>while\<close>, \<^verbatim>\<open>switch\<close>, \<^verbatim>\<open>return\<close>
  and \<^verbatim>\<open>function\<close>) is the callee of an edge, neither in \<^verbatim>\<open>edges\<close> nor in \<^verbatim>\<open>callers\<close>.
\<close>

theorem no_keyword_callee:
  assumes "valid_enum e"
  shows "\<exists>r. analyze_js e code = Inr r \<and>
           (\<forall>a b. b \<in> members (file_edges r) a \<longrightarrow> b \<notin> not_callees) \<and>
           (\<forall>a b. a \<in> members (file_callers r) b \<longrightarrow> b \<notin> not_callees)"
proof -
  from analyze_edges [OF assms js_calls_finite, of code]
  obtain r where r: "analyze e js_calls (parse_js_functions code) = Inr r"
    and es: "\<And>a b. b \<in> members (file_edges r) a \<longleftrightarrow>
                b \<in> fst ` set (parse_js_functions code) \<and>
                (\<exists>f. (a, f) \<in> set (parse_js_functions code) \<and> b \<in> js_calls f)"
    and cs: "\<And>a b. a \<in> members (file_callers r) b \<longleftrightarrow> b \<in> members (file_edges r) a"
    by blast
  have 1: "b \<notin> not_callees" if "b \<in> members (file_edges r) a" for a b
  proof -
    from that es obtain f where "(a, f) \<in> set (parse_js_functions code)" and "b \<in> js_calls f"
      by blast
    with js_calls_not_callees show ?thesis by blast
  qed
  with cs have 2: "b \<notin> not_callees" if "a \<in> members (file_callers r) b" for a b
    using that by blast
  from r 1 2 show ?thesis unfolding analyze_js_def by blast
qed

theorem no_keyword_callee_witness:
  "valid_enum sorted_list_of_set \<and>
   map_sum id (\<lambda>r. (file_edges r, file_callers r))
      (analyze_js sorted_list_of_set ''function f() { if (x) { g(); } } function g() { h(); }'')
      = Inr ([(''f'', {''g''}), (''g'', {}), (''if'', {})],
             [(''f'', {}), (''g'', {''f''}), (''if'', {})]) \<and>
   (\<exists>r. analyze_js sorted_list_of_set ''function f() { if (x) { g(); } } function g() { h(); }''
          = Inr r \<and>
        (\<forall>a b. b \<in> members (file_edges r) a \<longrightarrow> b \<notin> not_callees) \<and>
        (\<forall>a b. a \<in> members (file_callers r) b \<longrightarrow> b \<notin> not_callees))"
proof -
  have v: "valid_enum sorted_list_of_set" by (simp add: valid_enum_def)
  have js: "map_sum id (\<lambda>r. (file_edges r, file_callers r))
      (analyze_js sorted_list_of_set ''function f() { if (x) { g(); } } function g() { h(); }'')
      = Inr ([(''f'', {''g''}), (''g'', {}), (''if'', {})],
             [(''f'', {}), (''g'', {''f''}), (''if'', {})])"
    by code_simp
  note inst = no_keyword_callee [OF v,
      of "''function f() { if (x) { g(); } } function g() { h(); }''"]
  show ?thesis by (rule conjI [OF v conjI [OF js inst]])
qed

section \<open>Names matched more than once\<close>

text \<open>
  Claim C6. Whenever a name is matched more than once, the record kept under it is one of
  the candidates of that name and no candidate of that name spans more text; of candidates
  that span the same length the first one in the order of the loops is kept, so the
  choice is fixed by the text.
\<close>

theorem longest_span_wins:
  assumes "i < length (js_candidates code)"
  shows "\<exists>k j. map_of (parse_js_functions code) (js_name (js_candidates code ! i)) = Some k \<and>
           j < length (js_candidates code) \<and> js_candidates code ! j = k \<and>
           js_name k = js_name (js_candidates code ! i) \<and>
           span_len (js_candidates code ! i) \<le> span_len k \<and>
           (i < j \<longrightarrow> span_len (js_candidates code ! i) < span_len k)"
proof -
  let ?cs = "js_candidates code"
  note inv = kept_invariant [of ?cs, folded parse_js_functions_fold]
  from assms have "?cs ! i \<in> set ?cs" by simp
  with inv obtain k where k: "map_of (parse_js_functions code) (js_name (?cs ! i)) = Some k"
    by blast
  with inv obtain j where nm: "js_name k = js_name (?cs ! i)" and j: "j < length ?cs" "?cs ! j = k"
    and best: "\<forall>l < length ?cs. js_name (?cs ! l) = js_name (?cs ! i) \<longrightarrow>
        span_len (?cs ! l) \<le> span_len k \<and> (l < j \<longrightarrow> span_len (?cs ! l) < span_len k)"
    by blast
  from best assms have "span_len (?cs ! i) \<le> span_len k"
    and "i < j \<longrightarrow> span_len (?cs ! i) < span_len k"
    by blast+
  with k nm j show ?thesis by blast
qed

theorem longest_span_wins_witness:
  "0 < length (js_candidates ''function f() { g(); } function g() { }'') \<and>
   map (\<lambda>f. (js_name f, start_idx f, end_idx f))
     (js_candidates ''function f() { g(); } function g() { }'')
     = [(''f'', 0, 21), (''g'', 22, 38), (''f'', 9, 38)] \<and>
   map (\<lambda>(n, f). (n, start_idx f, end_idx f))
     (parse_js_functions ''function f() { g(); } function g() { }'')
     = [(''f'', 9, 38), (''g'', 22, 38)] \<and>
   (\<exists>k j. map_of (parse_js_functions ''function f() { g(); } function g() { }'')
            (js_name (js_candidates ''function f() { g(); } function g() { }'' ! 0)) = Some k \<and>
          j < length (js_candidates ''function f() { g(); } function g() { }'') \<and>
          js_candidates ''function f() { g(); } function g() { }'' ! j = k \<and>
          js_name k = js_name (js_candidates ''function f() { g(); } function g() { }'' ! 0) \<and>
          span_len (js_candidates ''function f() { g(); } function g() { }'' ! 0) \<le> span_len k \<and>
          (0 < j \<longrightarrow>
             span_len (js_candidates ''function f() { g(); } function g() { }'' ! 0) < span_len k))"
proof -
  have h: "0 < length (js_candidates ''function f() { g(); } function g() { }'')"
    by code_simp
  have cs: "map (\<lambda>f. (js_name f, start_idx f, end_idx f))
     (js_candidates ''function f() { g(); } function g() { }'')
     = [(''f'', 0, 21), (''g'', 22, 38), (''f'', 9, 38)]"
    by code_simp
  have kept: "map (\<lambda>(n, f). (n, start_idx f, end_idx f))
     (parse_js_functions ''function f() { g(); } function g() { }'')
     = [(''f'', 9, 38), (''g'', 22, 38)]"
    by code_simp
  note inst = longest_span_wins [OF h]
  show ?thesis by (rule conjI [OF h conjI [OF cs conjI [OF kept inst]]])
qed

text \<open>
  Claim C2, at the text \<^verbatim>\<open>if (x) { while (y) { z(); } }\<close>: the pattern commented
  \<^verbatim>\<open># filtered later\<close> matches \<^verbatim>\<open>if (x) {\<close>, no line of \<^verbatim>\<open>parse_js_functions\<close>
  filters the name, and the mapping that is returned has the one key \<^verbatim>\<open>if\<close>.
\<close>

theorem keyword_extracted_as_function:
  "map (\<lambda>(n, f). (n, js_name f, start_idx f, end_idx f, js_calls f))
     (parse_js_functions ''if (x) { while (y) { z(); } }'')
     = [(''if'', ''if'', 0, 27, {''z''})]"
  by code_simp

section \<open>Spans of arrow functions\<close>

text \<open>
  Claim C5, at the text \<^verbatim>\<open>const f = () => { return `{}}`; }\<close> of 33 characters. The
  body of \<open>f\<close> opens at index 16 and \<^verbatim>\<open>_brace_span\<close> finds its closing brace at index 32,
  passing over the three braces in the string. But \<^verbatim>\<open>parse_js_functions\<close> searches the
  brace from the end of the match, which for this pattern is behind the opening brace:
  it starts \<^verbatim>\<open>_brace_span\<close> at the brace in the string (index 26) and ends the span of
  \<open>f\<close> at the next brace in the string (index 27).
\<close>

theorem arrow_span_ends_in_string:
  "length ''const f = () => { return `{}}`; }'' = 33 \<and>
   brace_span ''const f = () => { return `{}}`; }'' 16 = 32 \<and>
   finditer rx_arrow ''const f = () => { return `{}}`; }'' = [(0, 17, ''f'')] \<and>
   str_find ''const f = () => { return `{}}`; }'' (CHR ''{'') 17 = 26 \<and>
   brace_span ''const f = () => { return `{}}`; }'' 26 = 27 \<and>
   map (\<lambda>(n, f). (n, start_idx f, end_idx f, js_src f))
     (parse_js_functions ''const f = () => { return `{}}`; }'')
     = [(''f'', 0, 28, ''const f = () => { return `{}'')]"
  by code_simp

section \<open>The span locator meets its contract\<close>

lemma find_map_Suc: "List.find P (map Suc xs) = map_option Suc (List.find (\<lambda>j. P (Suc j)) xs)"
  by (induction xs) auto

lemma find_upt_Suc:
  "List.find P [0..<Suc n]
     = (if P 0 then Some 0 else map_option Suc (List.find (\<lambda>j. P (Suc j)) [0..<n]))"
proof -
  have "[0..<Suc n] = 0 # map Suc [0..<n]"
    by (simp add: upt_conv_Cons map_Suc_upt)
  then show ?thesis by (simp add: find_map_Suc)
qed

lemma closes_from_Cons:
  "closes_from d (v # vis) 0 \<longleftrightarrow> v = Some (CHR ''}'') \<and> d = 1"
  "closes_from d (v # vis) (Suc j) \<longleftrightarrow>
     closes_from (d + (if v = Some (CHR ''{'') then 1 else 0)
                    - (if v = Some (CHR ''}'') then 1 else 0)) vis j"
  by (auto simp: closes_from_def)

lemma find_closes_Cons:
  "List.find (closes_from d (v # vis)) [0..<Suc n]
     = (if v = Some (CHR ''}'') \<and> d = 1 then Some 0
        else map_option Suc
          (List.find (closes_from (d + (if v = Some (CHR ''{'') then 1 else 0)
                                     - (if v = Some (CHR ''}'') then 1 else 0)) vis) [0..<n]))"
  by (simp only: find_upt_Suc closes_from_Cons)

lemma brace_scan_contract:
  "(in_str = None \<longrightarrow> \<not> esc) \<Longrightarrow>
   brace_scan depth in_str esc i s =
     (case List.find (closes_from depth (code_level in_str esc s)) [0..<length s] of
        None \<Rightarrow> - 1
      | Some j \<Rightarrow> int (i + j))"
proof (induction s arbitrary: depth in_str esc i)
  case Nil
  show ?case by simp
next
  case (Cons ch rest)
  have len: "length (ch # rest) = Suc (length rest)" by simp
  show ?case
  proof (cases in_str)
    case (Some q)
    have IH: "brace_scan depth q' e' (Suc i) rest =
        (case List.find (closes_from depth (code_level q' e' rest)) [0..<length rest] of
           None \<Rightarrow> - 1 | Some j \<Rightarrow> int (Suc i + j))"
      if "q' = None \<longrightarrow> \<not> e'" for q' e'
      using Cons.IH [OF that] by simp
    show ?thesis
      unfolding Some len
      by (simp add: find_closes_Cons IH del: upt_Suc split: option.splits)
  next
    case None
    with Cons.prems have esc: "\<not> esc" by simp
    have IH: "brace_scan d q' False (Suc i) rest =
        (case List.find (closes_from d (code_level q' False rest)) [0..<length rest] of
           None \<Rightarrow> - 1 | Some j \<Rightarrow> int (Suc i + j))" for d q'
      using Cons.IH [of q' False] by simp
    show ?thesis
      unfolding None len using esc
      by (simp add: find_closes_Cons IH del: upt_Suc split: option.splits)
  qed
qed

text \<open>
  The span locator meets its contract at every start index: \<^verbatim>\<open>_brace_span\<close> returns the
  index that \<open>matching_brace\<close> describes, and \<open>-1\<close> when there is none.
\<close>

lemma brace_span_contract:
  "brace_span code start =
     (case matching_brace code start of None \<Rightarrow> - 1 | Some j \<Rightarrow> int j)"
proof -
  have "closes_at vis = closes_from 0 vis" for vis
    by (simp add: closes_at_def closes_from_def fun_eq_iff)
  then show ?thesis
    by (simp add: brace_span_def matching_brace_def brace_scan_contract split: option.splits)
qed

end
